theory Spec2Isabelle
  imports Complex_Main
begin

section \<open>Smoothing cubic B-splines: a model of BSpline.cpp\<close>

text \<open>
  The program fits a smoothing cubic B-spline to one-dimensional samples. Its numbers
  are C++ \<open>float\<close>s; here they are real numbers, so every statement below is about
  the exact arithmetic the program approximates: rounding, overflow, infinities and
  NaN are not part of the model. Where the program divides, HOL's division by zero
  returns \<open>0\<close> where a float would be infinite or NaN; the divisors that can vanish
  are \<open>waveLength\<close> (in \<open>Ratio\<close>) and \<open>DX\<close> (in \<open>Basis\<close> and \<open>addP\<close>), and the
  theorems that depend on the quotient assume them non-zero.
  Integers (\<open>int\<close>, \<open>Subscript\<close>) are unbounded integers.
\<close>

subsection \<open>Data\<close>

text \<open>
  What stops a run without a value: a read outside a vector (undefined behaviour in
  the source), a failed \<open>assert\<close>, and \<open>exit (1)\<close>.
\<close>

datatype error = OutOfBounds | AssertionFailed | Exit1

text \<open>
  \<open>C_matrix<float>\<close>: a dense matrix. \<open>elems\<close> is the storage, indexed from 0 as
  \<open>A[i][j]\<close> does; \<open>A(i,j)\<close> of the source counts from 1.
\<close>

record C_matrix =
  num_rows :: int
  num_cols :: int
  elems :: "int \<Rightarrow> int \<Rightarrow> real"

definition sub0 :: "C_matrix \<Rightarrow> int \<Rightarrow> int \<Rightarrow> real" where
  "sub0 A i j = elems A i j"

definition sub1 :: "C_matrix \<Rightarrow> int \<Rightarrow> int \<Rightarrow> real" where
  "sub1 A i j = elems A (i - 1) (j - 1)"

definition set0 :: "C_matrix \<Rightarrow> int \<Rightarrow> int \<Rightarrow> real \<Rightarrow> C_matrix" where
  "set0 A i j v = A\<lparr>elems := (elems A)(i := (elems A i)(j := v))\<rparr>"

definition set1 :: "C_matrix \<Rightarrow> int \<Rightarrow> int \<Rightarrow> real \<Rightarrow> C_matrix" where
  "set1 A i j v = set0 A (i - 1) (j - 1) v"

definition newsize :: "int \<Rightarrow> int \<Rightarrow> real \<Rightarrow> C_matrix" where
  "newsize r c v = \<lparr>num_rows = r, num_cols = c, elems = (\<lambda>i j. v)\<rparr>"

text \<open>
  The state of a \<open>BSplineBase\<close> object, with the fields of its private structure
  \<open>BSplineBaseP\<close> (\<open>Q\<close>, \<open>LU\<close>, \<open>index\<close>, \<open>X\<close>, \<open>Nodes\<close>) written beside its own.
  \<open>std::vector<float>\<close> and the TNT vectors are lists.
\<close>

record BSplineBase =
  xmin :: real
  xmax :: real
  M :: int
  DX :: real
  waveLength :: real
  alpha :: real
  K :: int
  BC :: int
  NX :: int
  X :: "real list"
  Q :: C_matrix
  LU :: C_matrix
  index :: "int list"
  Nodes :: "real list"

definition vec_at :: "'a list \<Rightarrow> int \<Rightarrow> error + 'a" where
  "vec_at v i = (if 0 \<le> i \<and> i < int (length v) then Inr (v ! nat i) else Inl OutOfBounds)"

subsection \<open>Reset, Copy\<close>

definition Reset :: "BSplineBase \<Rightarrow> BSplineBase" where
  "Reset s = s\<lparr>X := [], waveLength := 0\<rparr>"

text \<open>
  \<open>Copy (x, nx, wl)\<close>: the array \<open>x\<close> with its length \<open>nx\<close> is the list \<open>xs\<close>; a null
  pointer or \<open>nx = 0\<close> is the empty list, and then neither \<open>X\<close> nor \<open>NX\<close> is written.
\<close>

definition Copy :: "BSplineBase \<Rightarrow> real list \<Rightarrow> real \<Rightarrow> BSplineBase" where
  "Copy s xs wl =
     (if xs \<noteq> [] then s\<lparr>X := xs, NX := int (length xs), waveLength := wl\<rparr>
      else s\<lparr>waveLength := wl\<rparr>)"

subsection \<open>Ratio, Setup\<close>

text \<open>
  \<open>Ratio (ni, deltax, ratiof, ratiod)\<close> writes its last three arguments and returns
  whether there is at least one data point per node; the model returns all four.
\<close>

definition Ratio :: "BSplineBase \<Rightarrow> int \<Rightarrow> bool \<times> real \<times> real \<times> real" where
  "Ratio s ni =
     (let deltax = (xmax s - xmin s) / real_of_int ni;
          ratiof = deltax / waveLength s;
          rd = real_of_int (NX s) / real_of_int (ni + 1)
      in (rd \<ge> 1, deltax, ratiof, rd))"

definition fmin :: real where
  "fmin = 2"

text \<open>The loop that finds the minimum and the maximum of the samples, from index \<open>i\<close>.\<close>

function Setup_minmax :: "BSplineBase \<Rightarrow> int \<Rightarrow> real \<Rightarrow> real \<Rightarrow> error + (real \<times> real)" where
  "Setup_minmax s i lo hi =
     (if i < NX s then
        (case vec_at (X s) i of
           Inl e \<Rightarrow> Inl e
         | Inr xi \<Rightarrow>
             if xi < lo then Setup_minmax s (i + 1) xi hi
             else if xi > hi then Setup_minmax s (i + 1) lo xi
             else Setup_minmax s (i + 1) lo hi)
      else Inr (lo, hi))"
  by pat_completeness auto
termination
  by (relation "measure (\<lambda>(s, i, lo, hi). nat (NX s - i))") auto

declare Setup_minmax.simps [simp del]

text \<open>
  The first \<open>do ... while (ratiof > fmin)\<close> loop, entered with the count \<open>ni\<close>;
  \<open>None\<close> is its \<open>return 0\<close>.
\<close>

function Setup_grow :: "BSplineBase \<Rightarrow> int \<Rightarrow> (int \<times> real \<times> real) option" where
  "Setup_grow s ni =
     (case Ratio s (ni + 1) of (ok, deltax, ratiof, rd) \<Rightarrow>
        if \<not> ok then None
        else if ratiof > fmin then Setup_grow s (ni + 1)
        else Some (ni + 1, deltax, ratiof))"
  by pat_completeness auto
termination
proof (relation "measure (\<lambda>(s, ni). nat (max (NX s) 0 - ni))", goal_cases)
  case 1
  show ?case by simp
next
  case (2 s ni ok y deltax z ratiof rd)
  then have one: "real_of_int (NX s) / real_of_int (ni + 1 + 1) \<ge> 1"
    by (auto simp: Ratio_def Let_def)
  have "ni < max (NX s) 0"
  proof (cases "0 < ni + 1 + 1")
    case True
    then have "real_of_int (ni + 1 + 1) \<le> real_of_int (NX s)"
      using one by (simp add: pos_le_divide_eq)
    then show ?thesis by linarith
  next
    case False
    then show ?thesis by linarith
  qed
  then show ?case by simp
qed

declare Setup_grow.simps [simp del]

text \<open>
  The second loop, which ends at its \<open>break\<close> (after the step back and the call of
  \<open>Ratio\<close> that recomputes \<open>deltax\<close>) or when its condition fails.
\<close>

function Setup_refine :: "BSplineBase \<Rightarrow> int \<Rightarrow> int \<times> real" where
  "Setup_refine s ni =
     (case Ratio s (ni + 1) of (ok, deltax, ratiof, ratiod) \<Rightarrow>
        if \<not> ok \<or> ratiof > 15 then
          (case Ratio s (ni + 1 - 1) of (ok', deltax', ratiof', rd') \<Rightarrow> (ni + 1 - 1, deltax'))
        else if ratiof < 4 \<or> ratiod > 2 then Setup_refine s (ni + 1)
        else (ni + 1, deltax))"
  by pat_completeness auto
termination
proof (relation "measure (\<lambda>(s, ni). nat (max (NX s) 0 - ni))", goal_cases)
  case 1
  show ?case by simp
next
  case (2 s ni ok y deltax z ratiof rd)
  then have one: "real_of_int (NX s) / real_of_int (ni + 1 + 1) \<ge> 1"
    by (auto simp: Ratio_def Let_def)
  have "ni < max (NX s) 0"
  proof (cases "0 < ni + 1 + 1")
    case True
    then have "real_of_int (ni + 1 + 1) \<le> real_of_int (NX s)"
      using one by (simp add: pos_le_divide_eq)
    then show ?thesis by linarith
  next
    case False
    then show ?thesis by linarith
  qed
  then show ?case by simp
qed

declare Setup_refine.simps [simp del]

text \<open>
  \<open>Setup\<close> returns its code (0 when it fails) and the new state: \<open>xmin\<close> and \<open>xmax\<close> are
  written before the wavelength is checked, \<open>M\<close> and \<open>DX\<close> only at the end.
\<close>

definition Setup :: "BSplineBase \<Rightarrow> error + (int \<times> BSplineBase)" where
  "Setup s =
     (case vec_at (X s) 0 of
        Inl e \<Rightarrow> Inl e
      | Inr x0 \<Rightarrow>
          (case Setup_minmax s 1 x0 x0 of
             Inl e \<Rightarrow> Inl e
           | Inr (lo, hi) \<Rightarrow>
               let s1 = s\<lparr>xmin := lo, xmax := hi\<rparr> in
               if waveLength s1 > xmax s1 - xmin s1 then Inr (0, s1)
               else
                 (case Setup_grow s1 9 of
                    None \<Rightarrow> Inr (0, s1)
                  | Some (ni, deltax, ratiof) \<Rightarrow>
                      (case Setup_refine s1 ni of (ni', deltax') \<Rightarrow>
                         Inr (1, s1\<lparr>M := ni', DX := deltax'\<rparr>)))))"

subsection \<open>Alpha, Beta, Basis\<close>

definition PI :: real where
  "PI = 3.1415927"

text \<open>The source tests \<open>k\<close>, which it does not declare; the member is \<open>K\<close>.\<close>

definition Alpha :: "BSplineBase \<Rightarrow> real \<Rightarrow> real" where
  "Alpha s wl =
     (let a = wl / (2 * PI); a2 = a * a
      in if K s = 2 then a2 * a2
         else if K s = 3 then a2 * (a2 * a2)
         else a2)"

definition BoundaryConditions :: "real list list" where
  "BoundaryConditions = [[-4, -1, -1, -4], [0, 1, 1, 0], [2, -1, -1, 2]]"

definition Beta :: "BSplineBase \<Rightarrow> int \<Rightarrow> error + real" where
  "Beta s m =
     (if m > 1 \<and> m < M s - 1 then Inr 0
      else
        (let m' = (if m \<ge> M s - 1 then m - (M s - 3) else m)
         in if \<not> (0 \<le> BC s \<and> BC s \<le> 2) then Inl AssertionFailed
            else if \<not> (0 \<le> m' \<and> m' \<le> 3) then Inl AssertionFailed
            else Inr (BoundaryConditions ! nat (BC s) ! nat m')))"

text \<open>
  \<open>Basis\<close> calls itself for the node outside the domain, \<open>-1\<close> or \<open>M + 1\<close>. When
  \<open>M\<close> is 0 or \<open>-1\<close> that node is a boundary node again and the recursion never
  ends: \<open>None\<close> is a call that does not return. \<open>Some (Inl e)\<close> is the failed
  assertion of \<open>Beta\<close>.
\<close>

partial_function (option) Basis :: "BSplineBase \<Rightarrow> int \<Rightarrow> real \<Rightarrow> (error + real) option" where
  "Basis s m x =
     (let xm = xmin s + real_of_int m * DX s;
          z = \<bar>(x - xm) / DX s\<bar>;
          y = (if z < 2 then
                 (let z1 = 2 - z; y1 = 0.25 * (z1 * z1 * z1); z2 = z1 - 1
                  in if z2 > 0 then y1 - z2 * z2 * z2 else y1)
               else 0)
      in if m = 0 \<or> m = 1 then
           (case Beta s m of
              Inl e \<Rightarrow> Some (Inl e)
            | Inr b \<Rightarrow>
                Option.bind (Basis s (- 1) x)
                  (\<lambda>r. case r of Inl e \<Rightarrow> Some (Inl e) | Inr v \<Rightarrow> Some (Inr (y + b * v))))
         else if m = M s - 1 \<or> m = M s then
           (case Beta s m of
              Inl e \<Rightarrow> Some (Inl e)
            | Inr b \<Rightarrow>
                Option.bind (Basis s (M s + 1) x)
                  (\<lambda>r. case r of Inl e \<Rightarrow> Some (Inl e) | Inr v \<Rightarrow> Some (Inr (y + b * v))))
         else Some (Inr y))"

subsection \<open>qDelta, calculateQ\<close>

definition qparts :: "real list list" where
  "qparts =
     [[0.11250, 0.63750, 0.63750, 0.11250],
      [0.00000, 0.13125, -0.54375, 0.13125],
      [0.00000, 0.00000, -0.22500, -0.22500],
      [0.00000, 0.00000, 0.00000, -0.01875]]"

function qDelta_loop :: "BSplineBase \<Rightarrow> int \<Rightarrow> int \<Rightarrow> int \<Rightarrow> real \<Rightarrow> real" where
  "qDelta_loop s m1 m2 m q =
     (if m < min (m1 + 2) (M s)
      then qDelta_loop s m1 m2 (m + 1) (q + qparts ! nat (m2 - m1) ! nat (m - m1 + 2))
      else q)"
  by pat_completeness auto
termination
  by (relation "measure (\<lambda>(s, m1, m2, m, q). nat (min (m1 + 2) (M s) - m))") auto

declare qDelta_loop.simps [simp del]

definition qDelta :: "BSplineBase \<Rightarrow> int \<Rightarrow> int \<Rightarrow> real" where
  "qDelta s m1 m2 =
     (let a = (if m1 > m2 then m2 else m1);
          b = (if m1 > m2 then m1 else m2)
      in if b - a > 3 then 0
         else qDelta_loop s a b (max (a - 2) 0) 0 * DX s * alpha s)"

text \<open>
  \<open>Q[i][j] += v\<close>, and the pair of assignments \<open>Q[j][i] = Q[i][j] = v\<close>, which writes
  \<open>Q[i][j]\<close> first.
\<close>

definition add0 :: "C_matrix \<Rightarrow> int \<Rightarrow> int \<Rightarrow> real \<Rightarrow> C_matrix" where
  "add0 a i j v = set0 a i j (sub0 a i j + v)"

definition set_pair :: "C_matrix \<Rightarrow> int \<Rightarrow> int \<Rightarrow> real \<Rightarrow> C_matrix" where
  "set_pair a i j v = set0 (set0 a i j v) j i v"

text \<open>The first loop of \<open>calculateQ\<close>: the values without the boundary constraints.\<close>

function calculateQ_fill_j :: "BSplineBase \<Rightarrow> int \<Rightarrow> int \<Rightarrow> C_matrix \<Rightarrow> C_matrix" where
  "calculateQ_fill_j s i j q =
     (if j < 4 \<and> i + j \<le> M s
      then calculateQ_fill_j s i (j + 1) (set_pair q (i + j) i (qDelta s i (i + j)))
      else q)"
  by pat_completeness auto
termination
  by (relation "measure (\<lambda>(s, i, j, q). nat (4 - j))") auto

declare calculateQ_fill_j.simps [simp del]

function calculateQ_fill :: "BSplineBase \<Rightarrow> int \<Rightarrow> C_matrix \<Rightarrow> C_matrix" where
  "calculateQ_fill s i q =
     (if i \<le> M s
      then calculateQ_fill s (i + 1) (calculateQ_fill_j s i 1 (set0 q i i (qDelta s i i)))
      else q)"
  by pat_completeness auto
termination
  by (relation "measure (\<lambda>(s, i, q). nat (M s + 1 - i))") auto

declare calculateQ_fill.simps [simp del]

text \<open>
  The two boundary loops read \<open>qdelta[k]\<close>, a vector that the compiled part of the
  source never declares (its declaration, \<open>qinterior\<close> scaled by \<open>DX * alpha\<close>, is
  inside \<open>#ifdef notdef\<close>), and the second one subscripts the member function as
  \<open>Beta[k]\<close>. Both are parameters here: \<open>qdelta\<close> and \<open>Beta_sub\<close>. In the first
  boundary loop \<open>q\<close> starts from \<open>0.0\<close>: the line \<open>qdelta[j-i];\<close> that follows is
  an expression without effect.
\<close>

function calculateQ_ul_j ::
  "(int \<Rightarrow> real) \<Rightarrow> BSplineBase \<Rightarrow> int \<Rightarrow> real \<Rightarrow> int \<Rightarrow> C_matrix \<Rightarrow> error + C_matrix" where
  "calculateQ_ul_j qdelta s i b1 j q =
     (if j < i + 4 then
        (case Beta s j of
           Inl e \<Rightarrow> Inl e
         | Inr b2 \<Rightarrow>
             (let v0 = 0;
                  v1 = (if i + 1 < 4 then v0 + b2 * qdelta (i + 1) else v0);
                  v2 = (if j + 1 < 4 then v1 + b1 * qdelta (j + 1) else v1);
                  v3 = v2 + b1 * b2 * qdelta 0
              in calculateQ_ul_j qdelta s i b1 (j + 1) (set_pair q i j v3)))
      else Inr q)"
  by pat_completeness auto
termination
  by (relation "measure (\<lambda>(qdelta, s, i, b1, j, q). nat (i + 4 - j))") auto

declare calculateQ_ul_j.simps [simp del]

function calculateQ_ul :: "(int \<Rightarrow> real) \<Rightarrow> BSplineBase \<Rightarrow> int \<Rightarrow> C_matrix \<Rightarrow> error + C_matrix" where
  "calculateQ_ul qdelta s i q =
     (if i \<le> 1 then
        (case Beta s i of
           Inl e \<Rightarrow> Inl e
         | Inr b1 \<Rightarrow>
             (case calculateQ_ul_j qdelta s i b1 i q of
                Inl e \<Rightarrow> Inl e
              | Inr q' \<Rightarrow> calculateQ_ul qdelta s (i + 1) q'))
      else Inr q)"
  by pat_completeness auto
termination
  by (relation "measure (\<lambda>(qdelta, s, i, q). nat (2 - i))") auto

declare calculateQ_ul.simps [simp del]

function calculateQ_lr_j ::
  "(int \<Rightarrow> real) \<Rightarrow> (int \<Rightarrow> real) \<Rightarrow> BSplineBase \<Rightarrow> int \<Rightarrow> real \<Rightarrow> int \<Rightarrow> C_matrix \<Rightarrow> C_matrix" where
  "calculateQ_lr_j qdelta Beta_sub s i b1 j q =
     (if j \<le> i then
        (let b2 = (if j \<ge> M s - 1 then Beta_sub (j - (M s - 1)) else 0);
             v0 = qdelta (i - j);
             v1 = (if M s + 1 - i < 4 then v0 + b2 * qdelta (M s + 1 - i) else v0);
             v2 = (if M s + 1 - j < 4 then v1 + b1 * qdelta (M s + 1 - j) else v1);
             v3 = v2 + b1 * b2 * qdelta 0
         in calculateQ_lr_j qdelta Beta_sub s i b1 (j + 1) (set_pair q i j v3))
      else q)"
  by pat_completeness auto
termination
  by (relation "measure (\<lambda>(qdelta, Beta_sub, s, i, b1, j, q). nat (i + 1 - j))") auto

declare calculateQ_lr_j.simps [simp del]

function calculateQ_lr ::
  "(int \<Rightarrow> real) \<Rightarrow> (int \<Rightarrow> real) \<Rightarrow> BSplineBase \<Rightarrow> int \<Rightarrow> C_matrix \<Rightarrow> C_matrix" where
  "calculateQ_lr qdelta Beta_sub s i q =
     (if i \<le> M s
      then calculateQ_lr qdelta Beta_sub s (i + 1)
             (calculateQ_lr_j qdelta Beta_sub s i (Beta_sub (i - (M s - 1))) (i - 3) q)
      else q)"
  by pat_completeness auto
termination
  by (relation "measure (\<lambda>(qdelta, Beta_sub, s, i, q). nat (M s + 1 - i))") auto

declare calculateQ_lr.simps [simp del]

definition calculateQ :: "(int \<Rightarrow> real) \<Rightarrow> (int \<Rightarrow> real) \<Rightarrow> BSplineBase \<Rightarrow> error + BSplineBase" where
  "calculateQ qdelta Beta_sub s =
     (let q0 = newsize (M s + 1) (M s + 1) 0;
          q1 = calculateQ_fill s 0 q0
      in case calculateQ_ul qdelta s 0 q1 of
           Inl e \<Rightarrow> Inl e
         | Inr q2 \<Rightarrow> Inr (s\<lparr>Q := calculateQ_lr qdelta Beta_sub s (M s - 1) q2\<rparr>))"

subsection \<open>addP\<close>

text \<open>The conversion of a \<open>float\<close> to \<open>int\<close> truncates towards zero.\<close>

definition float_to_int :: "real \<Rightarrow> int" where
  "float_to_int r = (if r \<ge> 0 then \<lfloor>r\<rfloor> else \<lceil>r\<rceil>)"

text \<open>The loop over \<open>n\<close>, from \<open>m + 1\<close> to \<open>min (M, m + 3)\<close>.\<close>

function addP_n :: "BSplineBase \<Rightarrow> real \<Rightarrow> int \<Rightarrow> int \<Rightarrow> C_matrix \<Rightarrow> (error + C_matrix) option" where
  "addP_n s x m n p =
     (if n \<le> min (M s) (m + 3) then
        (case Basis s m x of
           None \<Rightarrow> None
         | Some (Inl e) \<Rightarrow> Some (Inl e)
         | Some (Inr pm) \<Rightarrow>
             (case Basis s n x of
                None \<Rightarrow> None
              | Some (Inl e) \<Rightarrow> Some (Inl e)
              | Some (Inr pn) \<Rightarrow>
                  (let sm = pm * pn * DX s
                   in addP_n s x m (n + 1) (add0 (add0 p m n sm) n m sm))))
      else Some (Inr p))"
  by pat_completeness auto
termination
  by (relation "measure (\<lambda>(s, x, m, n, p). nat (min (M s) (m + 3) + 1 - n))") auto

declare addP_n.simps [simp del]

text \<open>
  The loop over \<open>m\<close>. Its condition is the source's \<open>m <= my::min(M, m+2)\<close>, which reads
  the loop variable itself on both sides.
\<close>

function addP_m :: "BSplineBase \<Rightarrow> real \<Rightarrow> int \<Rightarrow> C_matrix \<Rightarrow> (error + C_matrix) option" where
  "addP_m s x m p =
     (if m \<le> min (M s) (m + 2) then
        (case Basis s m x of
           None \<Rightarrow> None
         | Some (Inl e) \<Rightarrow> Some (Inl e)
         | Some (Inr pm) \<Rightarrow>
             (let sm = pm * pm * DX s
              in case addP_n s x m (m + 1) (add0 p m m sm) of
                   None \<Rightarrow> None
                 | Some (Inl e) \<Rightarrow> Some (Inl e)
                 | Some (Inr p') \<Rightarrow> addP_m s x (m + 1) p'))
      else Some (Inr p))"
  by pat_completeness auto
termination
  by (relation "measure (\<lambda>(s, x, m, p). nat (M s + 1 - m))") auto

declare addP_m.simps [simp del]

function addP_i :: "BSplineBase \<Rightarrow> int \<Rightarrow> C_matrix \<Rightarrow> (error + C_matrix) option" where
  "addP_i s i p =
     (if i < NX s then
        (case vec_at (X s) i of
           Inl e \<Rightarrow> Some (Inl e)
         | Inr x \<Rightarrow>
             (let m = float_to_int ((x - xmin s) / DX s)
              in case addP_m s x (max 0 (m - 2)) p of
                   None \<Rightarrow> None
                 | Some (Inl e) \<Rightarrow> Some (Inl e)
                 | Some (Inr p') \<Rightarrow> addP_i s (i + 1) p'))
      else Some (Inr p))"
  by pat_completeness auto
termination
  by (relation "measure (\<lambda>(s, i, p). nat (NX s - i))") auto

declare addP_i.simps [simp del]

text \<open>\<open>operator +=\<close> on matrices, with its two assertions.\<close>

definition mat_add :: "C_matrix \<Rightarrow> C_matrix \<Rightarrow> error + C_matrix" where
  "mat_add a b =
     (if num_rows a \<noteq> num_rows b \<or> num_cols a \<noteq> num_cols b then Inl AssertionFailed
      else Inr (a\<lparr>elems := (\<lambda>i j.
             if 0 \<le> i \<and> i < num_rows a \<and> 0 \<le> j \<and> j < num_cols a
             then elems a i j + elems b i j else elems a i j)\<rparr>))"

definition addP :: "BSplineBase \<Rightarrow> (error + BSplineBase) option" where
  "addP s =
     (case addP_i s 0 (newsize (M s + 1) (M s + 1) 0) of
        None \<Rightarrow> None
      | Some (Inl e) \<Rightarrow> Some (Inl e)
      | Some (Inr p) \<Rightarrow>
          (case mat_add (Q s) p of
             Inl e \<Rightarrow> Some (Inl e)
           | Inr q \<Rightarrow> Some (Inr (s\<lparr>Q := q\<rparr>))))"

subsection \<open>LU_factor_banded, factor\<close>

text \<open>
  The loops of \<open>LU_factor_banded\<close>. \<open>rows\<close>, \<open>cols\<close> and \<open>minMN\<close> are its locals \<open>M\<close>, \<open>N\<close>
  and \<open>minMN\<close>, computed once before the loop over the columns; \<open>A(i,j)\<close> counts from 1.
  \<open>abs\<close> is the absolute value.
\<close>

function LU_pivot :: "C_matrix \<Rightarrow> int \<Rightarrow> int \<Rightarrow> int \<Rightarrow> int \<Rightarrow> int \<Rightarrow> real \<Rightarrow> int \<times> real" where
  "LU_pivot a rows bands j i jp t =
     (if i \<le> min (j + bands) rows then
        (if \<bar>sub1 a i j\<bar> > t then LU_pivot a rows bands j (i + 1) i \<bar>sub1 a i j\<bar>
         else LU_pivot a rows bands j (i + 1) jp t)
      else (jp, t))"
  by pat_completeness auto
termination
  by (relation "measure (\<lambda>(a, rows, bands, j, i, jp, t). nat (min (j + bands) rows + 1 - i))") auto

declare LU_pivot.simps [simp del]

function LU_swap :: "C_matrix \<Rightarrow> int \<Rightarrow> int \<Rightarrow> int \<Rightarrow> int \<Rightarrow> C_matrix" where
  "LU_swap a cols j jp k =
     (if k \<le> cols then
        (let t = sub1 a j k;
             a1 = set1 a j k (sub1 a jp k);
             a2 = set1 a1 jp k t
         in LU_swap a2 cols j jp (k + 1))
      else a)"
  by pat_completeness auto
termination
  by (relation "measure (\<lambda>(a, cols, j, jp, k). nat (cols + 1 - k))") auto

declare LU_swap.simps [simp del]

function LU_scale :: "C_matrix \<Rightarrow> int \<Rightarrow> int \<Rightarrow> real \<Rightarrow> int \<Rightarrow> C_matrix" where
  "LU_scale a rows j recp k =
     (if k \<le> rows then LU_scale (set1 a k j (sub1 a k j * recp)) rows j recp (k + 1)
      else a)"
  by pat_completeness auto
termination
  by (relation "measure (\<lambda>(a, rows, j, recp, k). nat (rows + 1 - k))") auto

declare LU_scale.simps [simp del]

function LU_update_jj :: "C_matrix \<Rightarrow> int \<Rightarrow> int \<Rightarrow> int \<Rightarrow> int \<Rightarrow> C_matrix" where
  "LU_update_jj a cols j ii jj =
     (if jj \<le> cols
      then LU_update_jj (set1 a ii jj (sub1 a ii jj - sub1 a ii j * sub1 a j jj)) cols j ii (jj + 1)
      else a)"
  by pat_completeness auto
termination
  by (relation "measure (\<lambda>(a, cols, j, ii, jj). nat (cols + 1 - jj))") auto

declare LU_update_jj.simps [simp del]

function LU_update_ii :: "C_matrix \<Rightarrow> int \<Rightarrow> int \<Rightarrow> int \<Rightarrow> int \<Rightarrow> C_matrix" where
  "LU_update_ii a rows cols j ii =
     (if ii \<le> rows
      then LU_update_ii (LU_update_jj a cols j ii (j + 1)) rows cols j (ii + 1)
      else a)"
  by pat_completeness auto
termination
  by (relation "measure (\<lambda>(a, rows, cols, j, ii). nat (rows + 1 - ii))") auto

declare LU_update_ii.simps [simp del]

text \<open>What one pass of the loop over the columns does to the matrix once the pivot row
  \<open>jp\<close> is known and its pivot is not zero.\<close>

definition LU_eliminate :: "C_matrix \<Rightarrow> int \<Rightarrow> int \<Rightarrow> int \<Rightarrow> int \<Rightarrow> int \<Rightarrow> C_matrix" where
  "LU_eliminate a rows cols minMN j jp =
     (let a1 = (if jp \<noteq> j then LU_swap a cols j jp 1 else a);
          a2 = (if j < rows then LU_scale a1 rows j (1 / sub1 a1 j j) (j + 1) else a1)
      in if j < minMN then LU_update_ii a2 rows cols j (j + 1) else a2)"

text \<open>The loop over the columns, from column \<open>j\<close>; the first component is the value
  returned.\<close>

function LU_cols ::
  "C_matrix \<Rightarrow> int list \<Rightarrow> int \<Rightarrow> int \<Rightarrow> int \<Rightarrow> int \<Rightarrow> int \<Rightarrow> int \<times> C_matrix \<times> int list" where
  "LU_cols a indx rows cols minMN bands j =
     (if j \<le> minMN then
        (case LU_pivot a rows bands j (j + 1) j \<bar>sub1 a j j\<bar> of (jp, t) \<Rightarrow>
           (let indx' = indx[nat (j - 1) := jp]
            in if sub1 a jp j = 0 then (1, a, indx')
               else LU_cols (LU_eliminate a rows cols minMN j jp) indx' rows cols minMN bands (j + 1)))
      else (0, a, indx))"
  by pat_completeness auto
termination
  by (relation "measure (\<lambda>(a, indx, rows, cols, minMN, bands, j). nat (minMN + 1 - j))") auto

declare LU_cols.simps [simp del]

text \<open>\<open>indx.newsize (M)\<close> leaves the contents of the vector unspecified; they are 0 here.\<close>

definition LU_factor_banded :: "C_matrix \<Rightarrow> int list \<Rightarrow> int \<Rightarrow> int \<times> C_matrix \<times> int list" where
  "LU_factor_banded a indx bands =
     (let rows = num_rows a; cols = num_cols a
      in if rows = 0 \<or> cols = 0 then (0, a, indx)
         else
           (let indx' = (if int (length indx) \<noteq> rows then replicate (nat rows) 0 else indx);
                minMN = (if rows < cols then rows else cols)
            in LU_cols a indx' rows cols minMN bands 1))"

definition factor :: "BSplineBase \<Rightarrow> error + BSplineBase" where
  "factor s =
     (case LU_factor_banded (Q s) (replicate (nat (M s + 1)) 0) 3 of (rc, lu, idx) \<Rightarrow>
        if rc \<noteq> 0 then Inl Exit1 else Inr (s\<lparr>LU := lu, index := idx\<rparr>))"

subsection \<open>setDomain\<close>

text \<open>
  \<open>setDomain\<close> calls \<open>Setup\<close> as a statement: the code that \<open>Setup\<close> returns is not read.
\<close>

definition setDomain ::
  "(int \<Rightarrow> real) \<Rightarrow> (int \<Rightarrow> real) \<Rightarrow> BSplineBase \<Rightarrow> real list \<Rightarrow> real \<Rightarrow> (error + BSplineBase) option" where
  "setDomain qdelta Beta_sub s xs wl =
     (case Setup (Copy (Reset s) xs wl) of
        Inl e \<Rightarrow> Some (Inl e)
      | Inr (rc, s2) \<Rightarrow>
          (case calculateQ qdelta Beta_sub (s2\<lparr>alpha := Alpha s2 (waveLength s2)\<rparr>) of
             Inl e \<Rightarrow> Some (Inl e)
           | Inr s4 \<Rightarrow>
               (case addP s4 of
                  None \<Rightarrow> None
                | Some (Inl e) \<Rightarrow> Some (Inl e)
                | Some (Inr s5) \<Rightarrow> Some (factor s5))))"

subsection \<open>BSpline\<close>

text \<open>
  A \<open>BSpline\<close> is a \<open>BSplineBase\<close> (\<open>super\<close>) with the fields of \<open>BSplineP\<close>. The copy
  constructor of \<open>BSplineBase\<close> starts from an object \<open>s0\<close> whose fields are not
  initialised, and passes \<open>bb\<close>'s samples and \<open>bb.NX\<close> to \<open>Copy\<close>.
\<close>

record BSpline =
  super :: BSplineBase
  spline :: "real list"
  A :: "real list"







function evaluate_loop :: "BSpline \<Rightarrow> real \<Rightarrow> int \<Rightarrow> real \<Rightarrow> (error + real) option" where
  "evaluate_loop sp x i y =
     (if i \<le> M (super sp) then
        (case vec_at (A sp) i of
           Inl e \<Rightarrow> Some (Inl e)
         | Inr ai \<Rightarrow>
             (case Basis (super sp) i x of
                None \<Rightarrow> None
              | Some (Inl e) \<Rightarrow> Some (Inl e)
              | Some (Inr b) \<Rightarrow> evaluate_loop sp x (i + 1) (y + ai * b)))
      else Some (Inr y))"
  by pat_completeness auto
termination
  by (relation "measure (\<lambda>(sp, x, i, y). nat (M (super sp) + 1 - i))") auto

declare evaluate_loop.simps [simp del]

definition evaluate :: "BSpline \<Rightarrow> real \<Rightarrow> (error + real) option" where
  "evaluate sp x = evaluate_loop sp x 0 0"

function curve_loop :: "BSpline \<Rightarrow> int \<Rightarrow> real list \<Rightarrow> (error + real list) option" where
  "curve_loop sp n acc =
     (if n \<le> M (super sp) then
        (case evaluate sp (xmin (super sp) + real_of_int n * DX (super sp)) of
           None \<Rightarrow> None
         | Some (Inl e) \<Rightarrow> Some (Inl e)
         | Some (Inr v) \<Rightarrow> curve_loop sp (n + 1) (acc @ [v]))
      else Some (Inr acc))"
  by pat_completeness auto
termination
  by (relation "measure (\<lambda>(sp, n, acc). nat (M (super sp) + 1 - n))") auto

declare curve_loop.simps [simp del]

text \<open>\<open>curve\<close> returns the object with its cache, the samples and their number.\<close>

definition curve :: "BSpline \<Rightarrow> (error + BSpline \<times> real list \<times> int) option" where
  "curve sp =
     (if length (spline sp) = 0 then
        (case curve_loop sp 0 (spline sp) of
           None \<Rightarrow> None
         | Some (Inl e) \<Rightarrow> Some (Inl e)
         | Some (Inr c) \<Rightarrow> Some (Inr (sp\<lparr>spline := c\<rparr>, c, int (length c))))
      else Some (Inr (sp, spline sp, int (length (spline sp)))))"

subsection \<open>Example objects\<close>

text \<open>
  An object before \<open>setDomain\<close>: the constructor sets \<open>K\<close> and \<open>BC\<close>; the values of the
  other fields stand for whatever the memory held.
\<close>

definition blank_state :: BSplineBase where
  "blank_state =
     \<lparr>xmin = 0, xmax = 0, M = 0, DX = 0, waveLength = 0, alpha = 0, K = 1, BC = 2,
      NX = 0, X = [], Q = newsize 0 0 0, LU = newsize 0 0 0, index = [], Nodes = []\<rparr>"

text \<open>The samples \<open>0, 1, ..., n - 1\<close>.\<close>

definition samples :: "nat \<Rightarrow> real list" where
  "samples n = map real [0..<n]"

definition domain11 :: BSplineBase where
  "domain11 = (Copy (Reset blank_state) (samples 11) 4)\<lparr>xmin := 0, xmax := 10, M := 10, DX := 1\<rparr>"

subsection \<open>The basis functions in closed form\<close>

text \<open>
  The cubic B-spline kernel as a function of the normalised distance \<open>z\<close>: two cubic
  pieces, on \<open>[0, 1)\<close> and \<open>[1, 2)\<close>, and zero from 2 on.
\<close>

definition cubic :: "real \<Rightarrow> real" where
  "cubic z =
     (if z < 1 then (2 - z) ^ 3 / 4 - (1 - z) ^ 3
      else if z < 2 then (2 - z) ^ 3 / 4
      else 0)"

text \<open>The kernel centred at node \<open>m\<close>, and the coefficient of the reflected node.\<close>

definition kernel :: "BSplineBase \<Rightarrow> int \<Rightarrow> real \<Rightarrow> real" where
  "kernel s m x = cubic \<bar>(x - (xmin s + real_of_int m * DX s)) / DX s\<bar>"

definition beta_coeff :: "BSplineBase \<Rightarrow> int \<Rightarrow> real" where
  "beta_coeff s m =
     (if 1 < m \<and> m < M s - 1 then 0
      else BoundaryConditions ! nat (BC s) ! nat (if m \<ge> M s - 1 then m - (M s - 3) else m))"

definition Basis_val :: "BSplineBase \<Rightarrow> int \<Rightarrow> real \<Rightarrow> real" where
  "Basis_val s m x =
     kernel s m x +
       (if m = 0 \<or> m = 1 then beta_coeff s m * kernel s (- 1) x
        else if m = M s - 1 \<or> m = M s then beta_coeff s m * kernel s (M s + 1) x
        else 0)"

text \<open>
  The domains on which the basis functions are evaluated: at least three intervals, so
  that the nodes 0, 1 and \<open>M - 1\<close>, \<open>M\<close> are four nodes, a positive spacing, and a
  boundary condition of the table.
\<close>

definition valid_domain :: "BSplineBase \<Rightarrow> bool" where
  "valid_domain s = (3 \<le> M s \<and> 0 < DX s \<and> 0 \<le> BC s \<and> BC s \<le> 2)"

subsection \<open>The solve routine\<close>





subsection \<open>Values in closed form\<close>

text \<open>
  The value that \<open>evaluate\<close> returns at \<open>x\<close>, and the entry \<open>m\<close> of the right-hand side
  that the constructor of \<open>BSpline\<close> builds from the data \<open>y\<close>, on a valid domain.
\<close>

definition evaluate_val :: "BSpline \<Rightarrow> real \<Rightarrow> real" where
  "evaluate_val sp x = (\<Sum>k\<in>{0..M (super sp)}. A sp ! nat k * Basis_val (super sp) k x)"


subsection \<open>An example spline\<close>

definition spline11 :: BSpline where
  "spline11 = \<lparr>super = domain11, spline = [], A = replicate 11 1\<rparr>"

subsection \<open>The grid search as the specification words it\<close>













subsection \<open>Symmetric band matrices\<close>

text \<open>
  A square matrix of \<open>n\<close> rows that is symmetric and has no entry further than three
  places from the diagonal.
\<close>

definition band_inv :: "int \<Rightarrow> C_matrix \<Rightarrow> bool" where
  "band_inv n q =
     (num_rows q = n \<and> num_cols q = n \<and>
      (\<forall>i j. elems q i j = elems q j i) \<and>
      (\<forall>i j. 3 < \<bar>i - j\<bar> \<longrightarrow> elems q i j = 0))"

subsection \<open>The course of the factorization\<close>

text \<open>
  The pivot row that the search chooses in column \<open>j\<close> of the matrix \<open>a\<close>, and the matrix
  after \<open>n\<close> passes of the loop over the columns that began at column \<open>j\<close>, each with the
  pivot row chosen for it.
\<close>

definition LU_chosen :: "C_matrix \<Rightarrow> int \<Rightarrow> int \<Rightarrow> int \<Rightarrow> int" where
  "LU_chosen a rows bands j = fst (LU_pivot a rows bands j (j + 1) j \<bar>sub1 a j j\<bar>)"

fun LU_after :: "nat \<Rightarrow> C_matrix \<Rightarrow> int \<Rightarrow> int \<Rightarrow> int \<Rightarrow> int \<Rightarrow> int \<Rightarrow> C_matrix" where
  "LU_after 0 a rows cols minMN bands j = a"
| "LU_after (Suc n) a rows cols minMN bands j =
     LU_after n (LU_eliminate a rows cols minMN j (LU_chosen a rows bands j)) rows cols minMN bands (j + 1)"

text \<open>Whether the pivot chosen in the pass \<open>n\<close> (counted from 0) is zero.\<close>

definition zero_pivot_at :: "C_matrix \<Rightarrow> int \<Rightarrow> int \<Rightarrow> int \<Rightarrow> int \<Rightarrow> int \<Rightarrow> nat \<Rightarrow> bool" where
  "zero_pivot_at a rows cols minMN bands j n =
     (sub1 (LU_after n a rows cols minMN bands j)
        (LU_chosen (LU_after n a rows cols minMN bands j) rows bands (j + int n)) (j + int n) = 0)"

text \<open>A matrix of two rows, \<open>(0 1; 2 3)\<close>, and a singular one, \<open>(1 2; 2 4)\<close>.\<close>

definition matrix_0123 :: C_matrix where
  "matrix_0123 = set0 (set0 (set0 (newsize 2 2 0) 0 1 1) 1 0 2) 1 1 3"

definition matrix_1224 :: C_matrix where
  "matrix_1224 = set0 (set0 (set0 (set0 (newsize 2 2 0) 0 0 1) 0 1 2) 1 0 2) 1 1 4"

subsection \<open>The data-fit matrix as a sum over all samples\<close>



text \<open>
  A matrix of three rows, \<open>(1 2 0; 2 1 1; 5 1 4)\<close>: with one band below the diagonal
  the search in column 1 sees the rows 1 and 2 only, not the 5 in row 3.
\<close>

definition matrix_band :: C_matrix where
  "matrix_band =
     set0 (set0 (set0 (set0 (set0 (set0 (set0 (set0 (newsize 3 3 0)
       0 0 1) 0 1 2) 1 0 2) 1 1 1) 1 2 1) 2 0 5) 2 1 1) 2 2 4"

section \<open>Grid setup\<close>

lemma Setup_grow_ge: "Setup_grow s ni = Some (n, dx, rf) \<Longrightarrow> ni + 1 \<le> n"
proof (induction s ni rule: Setup_grow.induct)
  case (1 s ni)
  show ?case
  proof (cases "Ratio s (ni + 1)")
    case (fields ok deltax ratiof rd)
    show ?thesis
    proof (cases "ok \<and> ratiof > fmin")
      case True
      then have "Setup_grow s (ni + 1) = Some (n, dx, rf)"
        using "1.prems" fields by (subst (asm) Setup_grow.simps) simp
      then have "ni + 1 + 1 \<le> n"
        using "1.IH" fields True by simp
      then show ?thesis by simp
    next
      case False
      then show ?thesis
        using "1.prems" fields by (subst (asm) Setup_grow.simps) (auto split: if_splits)
    qed
  qed
qed

lemma Setup_refine_ge: "Setup_refine s ni = (n, dx) \<Longrightarrow> ni \<le> n"
proof (induction s ni rule: Setup_refine.induct)
  case (1 s ni)
  show ?case
  proof (cases "Ratio s (ni + 1)")
    case (fields ok deltax ratiof ratiod)
    show ?thesis
    proof (cases "\<not> ok \<or> ratiof > 15")
      case True
      then show ?thesis
        using "1.prems" fields
        by (subst (asm) Setup_refine.simps) (auto split: prod.splits)
    next
      case stay: False
      show ?thesis
      proof (cases "ratiof < 4 \<or> ratiod > 2")
        case True
        then have "Setup_refine s (ni + 1) = (n, dx)"
          using "1.prems" fields stay by (subst (asm) Setup_refine.simps) simp
        then have "ni + 1 \<le> n"
          using "1.IH" fields stay True by simp
        then show ?thesis by simp
      next
        case False
        then show ?thesis
          using "1.prems" fields stay by (subst (asm) Setup_refine.simps) auto
      qed
    qed
  qed
qed

text \<open>What a successful \<open>Setup\<close> has computed.\<close>

lemma Setup_success:
  assumes "Setup s = Inr (rc, s')" and "rc \<noteq> 0"
  shows "\<exists>lo hi ni deltax ratiof ni' deltax'.
     Setup_grow (s\<lparr>xmin := lo, xmax := hi\<rparr>) 9 = Some (ni, deltax, ratiof) \<and>
     Setup_refine (s\<lparr>xmin := lo, xmax := hi\<rparr>) ni = (ni', deltax') \<and>
     \<not> waveLength s > hi - lo \<and>
     s' = s\<lparr>xmin := lo, xmax := hi, M := ni', DX := deltax'\<rparr>"
proof (cases "vec_at (X s) 0")
  case (Inl e)
  then show ?thesis using assms by (simp add: Setup_def)
next
  case (Inr x0)
  show ?thesis
  proof (cases "Setup_minmax s 1 x0 x0")
    case (Inl e)
    then show ?thesis using assms Inr by (simp add: Setup_def)
  next
    case mm: (Inr p)
    obtain lo hi where p: "p = (lo, hi)" by (cases p)
    let ?s1 = "s\<lparr>xmin := lo, xmax := hi\<rparr>"
    have eq: "Setup s = (if waveLength s > hi - lo then Inr (0, ?s1)
        else (case Setup_grow ?s1 9 of None \<Rightarrow> Inr (0, ?s1)
              | Some (ni, deltax, ratiof) \<Rightarrow>
                 (case Setup_refine ?s1 ni of (ni', deltax') \<Rightarrow>
                    Inr (1, ?s1\<lparr>M := ni', DX := deltax'\<rparr>))))"
      using Inr mm p by (simp add: Setup_def Let_def)
    show ?thesis
    proof (cases "waveLength s > hi - lo")
      case True
      then show ?thesis using assms eq by simp
    next
      case wl: False
      show ?thesis
      proof (cases "Setup_grow ?s1 9")
        case None
        then show ?thesis using assms eq wl by simp
      next
        case (Some g)
        obtain ni deltax ratiof where g: "g = (ni, deltax, ratiof)" by (cases g)
        obtain ni' deltax' where r: "Setup_refine ?s1 ni = (ni', deltax')"
          by (cases "Setup_refine ?s1 ni")
        have "s' = ?s1\<lparr>M := ni', DX := deltax'\<rparr>"
          using assms eq wl Some g r by simp
        then show ?thesis using Some g r wl by blast
      qed
    qed
  qed
qed

lemma samples_11: "samples 11 = [0, 1, 2, 3, 4, 5, 6, 7, 8, 9, 10]"
  by (simp add: samples_def upt_rec)


lemma Setup_samples_11: "Setup (Copy (Reset blank_state) (samples 11) 4) = Inr (1, domain11)"
  by (simp add: Setup_def Copy_def Reset_def blank_state_def samples_11 vec_at_def Ratio_def
      Let_def fmin_def domain11_def Setup_minmax.simps Setup_grow.simps Setup_refine.simps)

text \<open>
  C10. Whenever \<open>Setup\<close> succeeds (returns a non-zero code), the number of node
  intervals it stores is at least 10: the first loop increments the candidate 9
  before it evaluates it, and the second loop never ends below the count it was
  entered with.
\<close>

theorem Setup_M_ge_10:
  assumes "Setup s = Inr (rc, s')" and "rc \<noteq> 0"
  shows "10 \<le> M s'"
proof -
  from Setup_success [OF assms] obtain lo hi ni deltax ratiof ni' deltax' where
    g: "Setup_grow (s\<lparr>xmin := lo, xmax := hi\<rparr>) 9 = Some (ni, deltax, ratiof)" and
    r: "Setup_refine (s\<lparr>xmin := lo, xmax := hi\<rparr>) ni = (ni', deltax')" and
    s': "s' = s\<lparr>xmin := lo, xmax := hi, M := ni', DX := deltax'\<rparr>"
    by blast
  have "10 \<le> ni" using Setup_grow_ge [OF g] by simp
  moreover have "ni \<le> ni'" using Setup_refine_ge [OF r] .
  ultimately show ?thesis using s' by simp
qed

theorem Setup_M_ge_10_witness:
  "Setup (Copy (Reset blank_state) (samples 11) 4) = Inr (1, domain11) \<and> 10 \<le> M domain11"
proof -
  have ne: "(1::int) \<noteq> 0" by simp
  from Setup_M_ge_10 [OF Setup_samples_11 ne] Setup_samples_11 show ?thesis by simp
qed

section \<open>Basis functions\<close>

lemma Basis_kernel_part:
  "(let xm = xmin s + real_of_int m * DX s;
        z = \<bar>(x - xm) / DX s\<bar>;
        y = (if z < 2 then
               (let z1 = 2 - z; y1 = 0.25 * (z1 * z1 * z1); z2 = z1 - 1
                in if z2 > 0 then y1 - z2 * z2 * z2 else y1)
             else 0)
    in f y) = f (kernel s m x)"
  by (simp add: kernel_def cubic_def Let_def power3_eq_cube)

lemma Basis_unfold:
  "Basis s m x =
     (if m = 0 \<or> m = 1 then
        (case Beta s m of
           Inl e \<Rightarrow> Some (Inl e)
         | Inr b \<Rightarrow>
             Option.bind (Basis s (- 1) x)
               (\<lambda>r. case r of Inl e \<Rightarrow> Some (Inl e) | Inr v \<Rightarrow> Some (Inr (kernel s m x + b * v))))
      else if m = M s - 1 \<or> m = M s then
        (case Beta s m of
           Inl e \<Rightarrow> Some (Inl e)
         | Inr b \<Rightarrow>
             Option.bind (Basis s (M s + 1) x)
               (\<lambda>r. case r of Inl e \<Rightarrow> Some (Inl e) | Inr v \<Rightarrow> Some (Inr (kernel s m x + b * v))))
      else Some (Inr (kernel s m x)))"
  by (subst Basis.simps) (rule Basis_kernel_part)

lemma Basis_interior:
  "m \<noteq> 0 \<Longrightarrow> m \<noteq> 1 \<Longrightarrow> m \<noteq> M s - 1 \<Longrightarrow> m \<noteq> M s \<Longrightarrow> Basis s m x = Some (Inr (kernel s m x))"
  by (subst Basis_unfold) simp

lemma Basis_outside:
  assumes "3 \<le> M s"
  shows "Basis s (- 1) x = Some (Inr (kernel s (- 1) x))"
    and "Basis s (M s + 1) x = Some (Inr (kernel s (M s + 1) x))"
  using assms by (simp_all add: Basis_interior)

lemma Beta_eq:
  assumes "valid_domain s" and "0 \<le> m" and "m \<le> M s"
  shows "Beta s m = Inr (beta_coeff s m)"
  using assms by (auto simp: Beta_def beta_coeff_def valid_domain_def Let_def)

lemma Beta_interior: "1 < m \<Longrightarrow> m < M s - 1 \<Longrightarrow> Beta s m = Inr 0"
  by (simp add: Beta_def)

lemma Basis_eq:
  assumes "valid_domain s"
  shows "Basis s m x = Some (Inr (Basis_val s m x))"
proof -
  have m3: "3 \<le> M s" using assms by (simp add: valid_domain_def)
  consider (low) "m = 0 \<or> m = 1" | (high) "\<not> (m = 0 \<or> m = 1)" "m = M s - 1 \<or> m = M s"
    | (mid) "m \<noteq> 0" "m \<noteq> 1" "m \<noteq> M s - 1" "m \<noteq> M s"
    by blast
  then show ?thesis
  proof cases
    case low
    then have "Beta s m = Inr (beta_coeff s m)"
      using Beta_eq [OF assms, of m] m3 by auto
    then show ?thesis
      using low Basis_outside(1) [OF m3, of x]
      by (subst Basis_unfold) (simp add: Basis_val_def)
  next
    case high
    then have "Beta s m = Inr (beta_coeff s m)"
      using Beta_eq [OF assms, of m] m3 by auto
    then show ?thesis
      using high Basis_outside(2) [OF m3, of x]
      by (subst Basis_unfold) (simp add: Basis_val_def)
  next
    case mid
    then show ?thesis
      by (simp add: Basis_interior Basis_val_def)
  qed
qed

lemma cubic_zero: "2 \<le> z \<Longrightarrow> cubic z = 0"
  by (simp add: cubic_def)

lemma kernel_pos_DX:
  assumes "0 < DX s"
  shows "kernel s m x = cubic (\<bar>x - (xmin s + real_of_int m * DX s)\<bar> / DX s)"
proof -
  have "\<bar>(x - (xmin s + real_of_int m * DX s)) / DX s\<bar>
      = \<bar>x - (xmin s + real_of_int m * DX s)\<bar> / \<bar>DX s\<bar>"
    by (rule abs_divide)
  also have "\<bar>DX s\<bar> = DX s"
    using assms by simp
  finally show ?thesis
    unfolding kernel_def by (rule arg_cong)
qed

lemma kernel_zero:
  assumes "0 < DX s" and "2 * DX s \<le> \<bar>x - (xmin s + real_of_int m * DX s)\<bar>"
  shows "kernel s m x = 0"
proof -
  have "2 \<le> \<bar>x - (xmin s + real_of_int m * DX s)\<bar> / DX s"
    using assms by (simp add: pos_le_divide_eq)
  then show ?thesis
    unfolding kernel_pos_DX [OF assms(1)] by (rule cubic_zero)
qed

text \<open>
  C6. On a domain with at least three intervals and a positive spacing, \<open>Basis (m, x)\<close>
  returns, for an interior node (\<open>1 < m < M - 1\<close>), the cubic kernel at the
  normalised distance of \<open>x\<close> from node \<open>m\<close>, which is zero as soon as that distance
  is \<open>2 * DX\<close> or more, and \<open>Beta (m)\<close> is zero there; for \<open>m\<close> in \<open>{0, 1}\<close> it returns the
  kernel plus \<open>Beta (m) * Basis (-1, x)\<close>, and for \<open>m\<close> in \<open>{M - 1, M}\<close> the kernel plus
  \<open>Beta (m) * Basis (M + 1, x)\<close>.
\<close>

theorem Basis_kernel_boundary:
  assumes "valid_domain s"
  shows "(1 < m \<and> m < M s - 1 \<longrightarrow>
            Basis s m x = Some (Inr (cubic (\<bar>x - (xmin s + real_of_int m * DX s)\<bar> / DX s))) \<and>
            Beta s m = Inr 0 \<and>
            (2 * DX s \<le> \<bar>x - (xmin s + real_of_int m * DX s)\<bar> \<longrightarrow> Basis s m x = Some (Inr 0))) \<and>
         (m = 0 \<or> m = 1 \<longrightarrow>
            (\<exists>b r. Beta s m = Inr b \<and> Basis s (- 1) x = Some (Inr r) \<and>
               Basis s m x = Some (Inr (kernel s m x + b * r)))) \<and>
         (m = M s - 1 \<or> m = M s \<longrightarrow>
            (\<exists>b r. Beta s m = Inr b \<and> Basis s (M s + 1) x = Some (Inr r) \<and>
               Basis s m x = Some (Inr (kernel s m x + b * r))))"
proof -
  have m3: "3 \<le> M s" and dx: "0 < DX s"
    using assms by (simp_all add: valid_domain_def)
  have interior: "1 < m \<and> m < M s - 1 \<longrightarrow>
            Basis s m x = Some (Inr (cubic (\<bar>x - (xmin s + real_of_int m * DX s)\<bar> / DX s))) \<and>
            Beta s m = Inr 0 \<and>
            (2 * DX s \<le> \<bar>x - (xmin s + real_of_int m * DX s)\<bar> \<longrightarrow> Basis s m x = Some (Inr 0))"
  proof (intro impI conjI)
    assume mid: "1 < m \<and> m < M s - 1"
    then have b: "Basis s m x = Some (Inr (kernel s m x))"
      by (simp add: Basis_interior)
    show "Basis s m x = Some (Inr (cubic (\<bar>x - (xmin s + real_of_int m * DX s)\<bar> / DX s)))"
      using b unfolding kernel_pos_DX [OF dx] .
    show "Beta s m = Inr 0"
      using mid by (simp add: Beta_interior)
    assume "2 * DX s \<le> \<bar>x - (xmin s + real_of_int m * DX s)\<bar>"
    then show "Basis s m x = Some (Inr 0)"
      using b kernel_zero [OF dx] by simp
  qed
  have low: "m = 0 \<or> m = 1 \<longrightarrow>
            (\<exists>b r. Beta s m = Inr b \<and> Basis s (- 1) x = Some (Inr r) \<and>
               Basis s m x = Some (Inr (kernel s m x + b * r)))"
  proof
    assume lo: "m = 0 \<or> m = 1"
    then have "Beta s m = Inr (beta_coeff s m)"
      using Beta_eq [OF assms, of m] m3 by auto
    moreover have "Basis s (- 1) x = Some (Inr (kernel s (- 1) x))"
      by (rule Basis_outside(1) [OF m3])
    moreover have "Basis s m x = Some (Inr (kernel s m x + beta_coeff s m * kernel s (- 1) x))"
      using Basis_eq [OF assms, of m x] lo by (simp add: Basis_val_def)
    ultimately show "\<exists>b r. Beta s m = Inr b \<and> Basis s (- 1) x = Some (Inr r) \<and>
               Basis s m x = Some (Inr (kernel s m x + b * r))"
      by blast
  qed
  have high: "m = M s - 1 \<or> m = M s \<longrightarrow>
            (\<exists>b r. Beta s m = Inr b \<and> Basis s (M s + 1) x = Some (Inr r) \<and>
               Basis s m x = Some (Inr (kernel s m x + b * r)))"
  proof
    assume hi: "m = M s - 1 \<or> m = M s"
    then have nl: "\<not> (m = 0 \<or> m = 1)" using m3 by auto
    have "Beta s m = Inr (beta_coeff s m)"
      using Beta_eq [OF assms, of m] m3 hi by auto
    moreover have "Basis s (M s + 1) x = Some (Inr (kernel s (M s + 1) x))"
      by (rule Basis_outside(2) [OF m3])
    moreover have "Basis s m x = Some (Inr (kernel s m x + beta_coeff s m * kernel s (M s + 1) x))"
      using Basis_eq [OF assms, of m x] hi nl by (simp add: Basis_val_def)
    ultimately show "\<exists>b r. Beta s m = Inr b \<and> Basis s (M s + 1) x = Some (Inr r) \<and>
               Basis s m x = Some (Inr (kernel s m x + b * r))"
      by blast
  qed
  from interior low high show ?thesis by blast
qed

lemma domain11_fields:
  "M domain11 = 10" "DX domain11 = 1" "xmin domain11 = 0" "xmax domain11 = 10"
  "BC domain11 = 2" "K domain11 = 1" "NX domain11 = 11" "X domain11 = samples 11"
  "waveLength domain11 = 4"
  by (simp_all add: domain11_def Copy_def Reset_def blank_state_def samples_11)

lemma valid_domain11: "valid_domain domain11"
  by (simp add: valid_domain_def domain11_fields)

theorem Basis_kernel_boundary_witness:
  "valid_domain domain11 \<and>
   Basis domain11 5 7 = Some (Inr 0) \<and> Beta domain11 5 = Inr 0 \<and>
   Basis domain11 5 (11 / 2) = Some (Inr (23 / 32)) \<and>
   Basis domain11 0 (1 / 2) = Some (Inr (23 / 32 + 2 * (1 / 32))) \<and>
   Basis domain11 10 (19 / 2) = Some (Inr (23 / 32 + 2 * (1 / 32)))"
proof -
  note v = valid_domain11
  have k: "kernel domain11 0 (1 / 2) = 23 / 32" "kernel domain11 10 (19 / 2) = 23 / 32"
    "kernel domain11 (- 1) (1 / 2) = 1 / 32" "kernel domain11 11 (19 / 2) = 1 / 32"
    by (simp_all add: kernel_def cubic_def domain11_fields power3_eq_cube)
  have b: "Beta domain11 0 = Inr 2" "Beta domain11 10 = Inr 2"
    by (simp_all add: Beta_def domain11_fields BoundaryConditions_def Let_def)
  have o: "Basis domain11 (- 1) (1 / 2) = Some (Inr (1 / 32))"
    "Basis domain11 11 (19 / 2) = Some (Inr (1 / 32))"
    using k by (simp_all add: Basis_interior domain11_fields)
  have "Basis domain11 5 7 = Some (Inr 0) \<and> Beta domain11 5 = Inr 0"
    using Basis_kernel_boundary [OF v, of 5 7] by (simp add: domain11_fields cubic_def)
  moreover have "Basis domain11 5 (11 / 2) = Some (Inr (23 / 32))"
    using Basis_kernel_boundary [OF v, of 5 "11 / 2"]
    by (simp add: domain11_fields cubic_def power3_eq_cube)
  moreover have "Basis domain11 0 (1 / 2) = Some (Inr (23 / 32 + 2 * (1 / 32)))"
    using Basis_kernel_boundary [OF v, of 0 "1 / 2"] k b o by auto
  moreover have "Basis domain11 10 (19 / 2) = Some (Inr (23 / 32 + 2 * (1 / 32)))"
    using Basis_kernel_boundary [OF v, of 10 "19 / 2"] k b o by (auto simp: domain11_fields)
  ultimately show ?thesis using v by blast
qed

section \<open>Evaluation of a fitted spline\<close>

lemma vec_at_in: "0 \<le> i \<Longrightarrow> i < int (length v) \<Longrightarrow> vec_at v i = Inr (v ! nat i)"
  by (simp add: vec_at_def)

lemma sum_from: "(i::int) \<le> n \<Longrightarrow> (\<Sum>k\<in>{i..n}. f k) = f i + (\<Sum>k\<in>{i + 1..n}. f k)"
proof -
  assume "i \<le> n"
  then have "{i..n} = insert i {i + 1..n}" by auto
  then show ?thesis by simp
qed

lemma evaluate_loop_eq:
  "valid_domain (super sp) \<Longrightarrow> int (length (A sp)) = M (super sp) + 1 \<Longrightarrow>
   0 \<le> i \<Longrightarrow> i \<le> M (super sp) + 1 \<Longrightarrow>
    evaluate_loop sp x i y =
      Some (Inr (y + (\<Sum>k\<in>{i..M (super sp)}. A sp ! nat k * Basis_val (super sp) k x)))"
proof (induction sp x i y rule: evaluate_loop.induct)
  case (1 sp x i y)
  note v = "1.prems"(1) and len = "1.prems"(2)
  show ?case
  proof (cases "i \<le> M (super sp)")
    case True
    have at: "vec_at (A sp) i = Inr (A sp ! nat i)"
      using True "1.prems" len by (simp add: vec_at_in)
    have b: "Basis (super sp) i x = Some (Inr (Basis_val (super sp) i x))"
      by (rule Basis_eq [OF v])
    have "evaluate_loop sp x i y
        = evaluate_loop sp x (i + 1) (y + A sp ! nat i * Basis_val (super sp) i x)"
      using True at b by (subst evaluate_loop.simps) simp
    also have "\<dots> = Some (Inr (y + A sp ! nat i * Basis_val (super sp) i x +
        (\<Sum>k\<in>{i + 1..M (super sp)}. A sp ! nat k * Basis_val (super sp) k x)))"
      using "1.IH" [OF True at b refl v len] True "1.prems" by simp
    finally show ?thesis
      using sum_from [OF True, of "\<lambda>k. A sp ! nat k * Basis_val (super sp) k x"]
      by (simp add: add.assoc)
  next
    case False
    then show ?thesis
      by (subst evaluate_loop.simps) simp
  qed
qed

lemma evaluate_eq:
  assumes "valid_domain (super sp)" and "int (length (A sp)) = M (super sp) + 1"
  shows "evaluate sp x =
    Some (Inr (\<Sum>k\<in>{0..M (super sp)}. A sp ! nat k * Basis_val (super sp) k x))"
proof -
  have "0 \<le> M (super sp) + 1"
    using assms(1) by (simp add: valid_domain_def)
  then show ?thesis
    using evaluate_loop_eq [OF assms, of 0 x 0] by (simp add: evaluate_def)
qed

lemma curve_loop_eq:
  "valid_domain (super sp) \<Longrightarrow> int (length (A sp)) = M (super sp) + 1 \<Longrightarrow>
   0 \<le> n \<Longrightarrow> n \<le> M (super sp) + 1 \<Longrightarrow>
    curve_loop sp n acc =
      Some (Inr (acc @ map (\<lambda>k. evaluate_val sp (xmin (super sp) + real_of_int k * DX (super sp)))
                        [n..M (super sp)]))"
proof (induction sp n acc rule: curve_loop.induct)
  case (1 sp n acc)
  note v = "1.prems"(1) and len = "1.prems"(2)
  let ?f = "\<lambda>k. evaluate_val sp (xmin (super sp) + real_of_int k * DX (super sp))"
  show ?case
  proof (cases "n \<le> M (super sp)")
    case True
    have e: "evaluate sp (xmin (super sp) + real_of_int n * DX (super sp)) = Some (Inr (?f n))"
      using evaluate_eq [OF v len] by (simp add: evaluate_val_def)
    have "curve_loop sp n acc = curve_loop sp (n + 1) (acc @ [?f n])"
      using True e by (subst curve_loop.simps) simp
    also have "\<dots> = Some (Inr ((acc @ [?f n]) @ map ?f [n + 1..M (super sp)]))"
      using "1.IH" [OF True e refl v len] True "1.prems" by simp
    also have "(acc @ [?f n]) @ map ?f [n + 1..M (super sp)] = acc @ map ?f [n..M (super sp)]"
      using True by (simp add: upto_rec1)
    finally show ?thesis .
  next
    case False
    then show ?thesis
      by (subst curve_loop.simps) simp
  qed
qed

text \<open>
  C8. For a fitted spline (coefficients for the nodes \<open>0..M\<close>, nothing cached yet) on a
  valid domain, \<open>evaluate (x)\<close> returns the sum of \<open>A[i] * Basis (i, x)\<close> over
  \<open>i = 0..M\<close>; \<open>curve\<close> returns \<open>M + 1\<close> samples, the sample at position \<open>n\<close> being what
  \<open>evaluate\<close> returns at \<open>xmin + n * DX\<close>, and stores them; a second call returns the
  stored samples and leaves the object as it is. Nothing is computed again: whatever
  non-empty list \<open>d\<close> the cache holds, \<open>curve\<close> returns \<open>d\<close> and its length and leaves the
  object as it is.
\<close>

theorem curve_evaluate_cached:
  assumes "valid_domain (super sp)" and "int (length (A sp)) = M (super sp) + 1"
    and "spline sp = []"
  shows "\<exists>c b.
     curve sp = Some (Inr (sp\<lparr>spline := c\<rparr>, c, M (super sp) + 1)) \<and>
     int (length c) = M (super sp) + 1 \<and>
     (\<forall>n. 0 \<le> n \<and> n \<le> M (super sp) \<longrightarrow>
        evaluate sp (xmin (super sp) + real_of_int n * DX (super sp)) = Some (Inr (c ! nat n))) \<and>
     (\<forall>x i. Basis (super sp) i x = Some (Inr (b i x))) \<and>
     (\<forall>x. evaluate sp x = Some (Inr (\<Sum>i\<in>{0..M (super sp)}. A sp ! nat i * b i x))) \<and>
     curve (sp\<lparr>spline := c\<rparr>) = Some (Inr (sp\<lparr>spline := c\<rparr>, c, M (super sp) + 1)) \<and>
     (\<forall>d. d \<noteq> [] \<longrightarrow>
        curve (sp\<lparr>spline := d\<rparr>) = Some (Inr (sp\<lparr>spline := d\<rparr>, d, int (length d))))"
proof -
  let ?f = "\<lambda>k. evaluate_val sp (xmin (super sp) + real_of_int k * DX (super sp))"
  let ?c = "map ?f [0..M (super sp)]"
  have m3: "3 \<le> M (super sp)"
    using assms(1) by (simp add: valid_domain_def)
  have len: "int (length ?c) = M (super sp) + 1"
    using m3 by simp
  have loop: "curve_loop sp 0 [] = Some (Inr ?c)"
    using curve_loop_eq [OF assms(1,2), of 0 "[]"] m3 by simp
  have first: "curve sp = Some (Inr (sp\<lparr>spline := ?c\<rparr>, ?c, M (super sp) + 1))"
    using loop len assms(3) by (simp add: curve_def)
  have ne: "length ?c \<noteq> 0"
    using len m3 by linarith
  have second: "curve (sp\<lparr>spline := ?c\<rparr>) = Some (Inr (sp\<lparr>spline := ?c\<rparr>, ?c, M (super sp) + 1))"
    using ne len unfolding curve_def by simp
  have nth: "\<forall>n. 0 \<le> n \<and> n \<le> M (super sp) \<longrightarrow>
      evaluate sp (xmin (super sp) + real_of_int n * DX (super sp)) = Some (Inr (?c ! nat n))"
  proof (intro allI impI)
    fix n assume n: "0 \<le> n \<and> n \<le> M (super sp)"
    then have "nat n < length [0..M (super sp)]" by simp
    then have "?c ! nat n = ?f ([0..M (super sp)] ! nat n)" by (rule nth_map)
    also have "[0..M (super sp)] ! nat n = n"
      using n by simp
    finally show "evaluate sp (xmin (super sp) + real_of_int n * DX (super sp)) = Some (Inr (?c ! nat n))"
      using evaluate_eq [OF assms(1,2)] by (simp add: evaluate_val_def)
  qed
  have bas: "\<forall>x i. Basis (super sp) i x = Some (Inr (Basis_val (super sp) i x))"
    using Basis_eq [OF assms(1)] by blast
  have ev: "\<forall>x. evaluate sp x = Some (Inr (\<Sum>i\<in>{0..M (super sp)}. A sp ! nat i * Basis_val (super sp) i x))"
    using evaluate_eq [OF assms(1,2)] by blast
  have stale: "\<forall>d. d \<noteq> [] \<longrightarrow>
      curve (sp\<lparr>spline := d\<rparr>) = Some (Inr (sp\<lparr>spline := d\<rparr>, d, int (length d)))"
    by (simp add: curve_def)
  from first len nth bas ev second stale show ?thesis by blast
qed

lemma spline11_fields:
  "super spline11 = domain11" "spline spline11 = []" "A spline11 = replicate 11 1"
  by (simp_all add: spline11_def)

theorem curve_evaluate_cached_witness:
  "valid_domain (super spline11) \<and> int (length (A spline11)) = M (super spline11) + 1 \<and>
   spline spline11 = [] \<and>
   (\<exists>c. curve spline11 = Some (Inr (spline11\<lparr>spline := c\<rparr>, c, 11)) \<and> length c = 11 \<and>
        curve (spline11\<lparr>spline := c\<rparr>) = Some (Inr (spline11\<lparr>spline := c\<rparr>, c, 11))) \<and>
   curve (spline11\<lparr>spline := [7]\<rparr>) = Some (Inr (spline11\<lparr>spline := [7]\<rparr>, [7], 1))"
proof -
  have h1: "valid_domain (super spline11)"
    by (simp add: spline11_fields valid_domain11)
  have h2: "int (length (A spline11)) = M (super spline11) + 1"
    by (simp add: spline11_fields domain11_fields)
  have h3: "spline spline11 = []"
    by (simp add: spline11_fields)
  have m: "M (super spline11) + 1 = 11"
    by (simp add: spline11_fields domain11_fields)
  from curve_evaluate_cached [OF h1 h2 h3] obtain c where
    c: "curve spline11 = Some (Inr (spline11\<lparr>spline := c\<rparr>, c, M (super spline11) + 1))"
    "int (length c) = M (super spline11) + 1"
    "curve (spline11\<lparr>spline := c\<rparr>) = Some (Inr (spline11\<lparr>spline := c\<rparr>, c, M (super spline11) + 1))"
    and d: "\<forall>d. d \<noteq> [] \<longrightarrow>
      curve (spline11\<lparr>spline := d\<rparr>) = Some (Inr (spline11\<lparr>spline := d\<rparr>, d, int (length d)))"
    by blast
  from c have first: "curve spline11 = Some (Inr (spline11\<lparr>spline := c\<rparr>, c, 11)) \<and> length c = 11 \<and>
        curve (spline11\<lparr>spline := c\<rparr>) = Some (Inr (spline11\<lparr>spline := c\<rparr>, c, 11))"
    unfolding m by simp
  have "curve (spline11\<lparr>spline := [7]\<rparr>) = Some (Inr (spline11\<lparr>spline := [7]\<rparr>, [7], 1))"
    using d [rule_format, of "[7]"] by simp
  then show ?thesis using first h1 h2 h3 by blast
qed

section \<open>Fitting\<close>










section \<open>The solve routine\<close>











section \<open>The scenario of ten samples\<close>








section \<open>The step sequence of the grid search\<close>





lemma Setup_unfold:
  assumes "vec_at (X s) 0 = Inr x0" and "Setup_minmax s 1 x0 x0 = Inr (lo, hi)"
  shows "Setup s =
     (if waveLength s > hi - lo then Inr (0, s\<lparr>xmin := lo, xmax := hi\<rparr>)
      else (case Setup_grow (s\<lparr>xmin := lo, xmax := hi\<rparr>) 9 of
              None \<Rightarrow> Inr (0, s\<lparr>xmin := lo, xmax := hi\<rparr>)
            | Some (ni, deltax, ratiof) \<Rightarrow>
                (case Setup_refine (s\<lparr>xmin := lo, xmax := hi\<rparr>) ni of (ni', deltax') \<Rightarrow>
                   Inr (1, s\<lparr>xmin := lo, xmax := hi, M := ni', DX := deltax'\<rparr>))))"
  using assms by (simp add: Setup_def Let_def)







lemma Ratio_after_Setup: "Ratio (s\<lparr>M := a, DX := b\<rparr>) k = Ratio s k"
  by (simp add: Ratio_def)








section \<open>Assembly of the system matrix\<close>

lemma band_inv_newsize: "band_inv n (newsize n n 0)"
  by (simp add: band_inv_def newsize_def)

lemma band_inv_set_diag: "band_inv n q \<Longrightarrow> band_inv n (set0 q i i v)"
  by (simp add: band_inv_def set0_def)

lemma band_inv_set_pair: "band_inv n q \<Longrightarrow> \<bar>i - j\<bar> \<le> 3 \<Longrightarrow> band_inv n (set_pair q i j v)"
  by (auto simp: band_inv_def set_pair_def set0_def)

lemma band_inv_add_diag: "band_inv n q \<Longrightarrow> band_inv n (add0 q i i v)"
  by (simp add: band_inv_def add0_def set0_def sub0_def)

lemma band_inv_add_pair:
  "band_inv n q \<Longrightarrow> \<bar>i - j\<bar> \<le> 3 \<Longrightarrow> band_inv n (add0 (add0 q i j v) j i v)"
  by (auto simp: band_inv_def add0_def set0_def sub0_def)

lemma band_inv_fill_j:
  "band_inv n q \<Longrightarrow> 0 \<le> j \<Longrightarrow> band_inv n (calculateQ_fill_j s i j q)"
proof (induction s i j q rule: calculateQ_fill_j.induct)
  case (1 s i j q)
  show ?case
  proof (cases "j < 4 \<and> i + j \<le> M s")
    case True
    have "band_inv n (set_pair q (i + j) i (qDelta s i (i + j)))"
      using "1.prems" True by (intro band_inv_set_pair) auto
    then have "band_inv n (calculateQ_fill_j s i (j + 1) (set_pair q (i + j) i (qDelta s i (i + j))))"
      using "1.IH" [OF True] "1.prems" by simp
    then show ?thesis
      using True by (subst calculateQ_fill_j.simps) simp
  next
    case False
    then show ?thesis
      using "1.prems" by (subst calculateQ_fill_j.simps) auto
  qed
qed

lemma band_inv_fill: "band_inv n q \<Longrightarrow> band_inv n (calculateQ_fill s i q)"
proof (induction s i q rule: calculateQ_fill.induct)
  case (1 s i q)
  show ?case
  proof (cases "i \<le> M s")
    case True
    have "band_inv n (calculateQ_fill_j s i 1 (set0 q i i (qDelta s i i)))"
      using "1.prems" by (intro band_inv_fill_j band_inv_set_diag) simp_all
    then have "band_inv n (calculateQ_fill s (i + 1) (calculateQ_fill_j s i 1 (set0 q i i (qDelta s i i))))"
      using "1.IH" [OF True] by simp
    then show ?thesis
      using True by (subst calculateQ_fill.simps) simp
  next
    case False
    then show ?thesis
      using "1.prems" by (subst calculateQ_fill.simps) simp
  qed
qed

lemma band_inv_ul_j:
  "valid_domain s \<Longrightarrow> 0 \<le> i \<Longrightarrow> i + 3 \<le> M s \<Longrightarrow> i \<le> j \<Longrightarrow> band_inv n q \<Longrightarrow>
   \<exists>q'. calculateQ_ul_j qdelta s i b1 j q = Inr q' \<and> band_inv n q'"
proof (induction qdelta s i b1 j q rule: calculateQ_ul_j.induct)
  case (1 qdelta s i b1 j q)
  show ?case
  proof (cases "j < i + 4")
    case True
    have b: "Beta s j = Inr (beta_coeff s j)"
      using "1.prems" True by (intro Beta_eq) auto
    let ?v = "(if j + 1 < 4
               then (if i + 1 < 4 then 0 + beta_coeff s j * qdelta (i + 1) else 0) + b1 * qdelta (j + 1)
               else (if i + 1 < 4 then 0 + beta_coeff s j * qdelta (i + 1) else 0)) +
              b1 * beta_coeff s j * qdelta 0"
    have eq: "calculateQ_ul_j qdelta s i b1 j q = calculateQ_ul_j qdelta s i b1 (j + 1) (set_pair q i j ?v)"
      using True b by (subst calculateQ_ul_j.simps) (simp add: Let_def)
    have "band_inv n (set_pair q i j ?v)"
      using "1.prems" True by (intro band_inv_set_pair) auto
    then have "\<exists>q'. calculateQ_ul_j qdelta s i b1 (j + 1) (set_pair q i j ?v) = Inr q' \<and> band_inv n q'"
      using "1.IH" [OF True b refl refl refl refl] "1.prems" by (simp add: Let_def)
    then show ?thesis
      using eq by simp
  next
    case False
    then show ?thesis
      using "1.prems" by (subst calculateQ_ul_j.simps) simp
  qed
qed

lemma band_inv_ul:
  "valid_domain s \<Longrightarrow> 4 \<le> M s \<Longrightarrow> 0 \<le> i \<Longrightarrow> band_inv n q \<Longrightarrow>
   \<exists>q'. calculateQ_ul qdelta s i q = Inr q' \<and> band_inv n q'"
proof (induction qdelta s i q rule: calculateQ_ul.induct)
  case (1 qdelta s i q)
  show ?case
  proof (cases "i \<le> 1")
    case True
    have b: "Beta s i = Inr (beta_coeff s i)"
      using "1.prems" True by (intro Beta_eq) auto
    obtain q1 where q1: "calculateQ_ul_j qdelta s i (beta_coeff s i) i q = Inr q1" "band_inv n q1"
      using band_inv_ul_j [of s i i n q qdelta "beta_coeff s i"] "1.prems" True by auto
    have eq: "calculateQ_ul qdelta s i q = calculateQ_ul qdelta s (i + 1) q1"
      using True b q1 by (subst calculateQ_ul.simps) simp
    show ?thesis
      using "1.IH" [OF True b q1(1)] "1.prems" q1(2) eq by simp
  next
    case False
    then show ?thesis
      using "1.prems" by (subst calculateQ_ul.simps) simp
  qed
qed

lemma band_inv_lr_j:
  "band_inv n q \<Longrightarrow> i - 3 \<le> j \<Longrightarrow> band_inv n (calculateQ_lr_j qdelta Beta_sub s i b1 j q)"
proof (induction qdelta Beta_sub s i b1 j q rule: calculateQ_lr_j.induct)
  case (1 qdelta Beta_sub s i b1 j q)
  show ?case
  proof (cases "j \<le> i")
    case True
    let ?b2 = "if j \<ge> M s - 1 then Beta_sub (j - (M s - 1)) else 0"
    let ?v0 = "qdelta (i - j)"
    let ?v1 = "if M s + 1 - i < 4 then ?v0 + ?b2 * qdelta (M s + 1 - i) else ?v0"
    let ?v2 = "if M s + 1 - j < 4 then ?v1 + b1 * qdelta (M s + 1 - j) else ?v1"
    let ?v3 = "?v2 + b1 * ?b2 * qdelta 0"
    have eq: "calculateQ_lr_j qdelta Beta_sub s i b1 j q =
        calculateQ_lr_j qdelta Beta_sub s i b1 (j + 1) (set_pair q i j ?v3)"
      using True by (subst calculateQ_lr_j.simps) (simp add: Let_def)
    have "band_inv n (set_pair q i j ?v3)"
      using "1.prems" True by (intro band_inv_set_pair) auto
    then have "band_inv n (calculateQ_lr_j qdelta Beta_sub s i b1 (j + 1) (set_pair q i j ?v3))"
      using "1.IH" [OF True refl refl refl refl refl] "1.prems" by simp
    then show ?thesis
      using eq by simp
  next
    case False
    then show ?thesis
      using "1.prems" by (subst calculateQ_lr_j.simps) simp
  qed
qed

lemma band_inv_lr:
  "band_inv n q \<Longrightarrow> band_inv n (calculateQ_lr qdelta Beta_sub s i q)"
proof (induction qdelta Beta_sub s i q rule: calculateQ_lr.induct)
  case (1 qdelta Beta_sub s i q)
  show ?case
  proof (cases "i \<le> M s")
    case True
    have "band_inv n (calculateQ_lr_j qdelta Beta_sub s i (Beta_sub (i - (M s - 1))) (i - 3) q)"
      using "1.prems" by (intro band_inv_lr_j) simp_all
    then have "band_inv n (calculateQ_lr qdelta Beta_sub s (i + 1)
        (calculateQ_lr_j qdelta Beta_sub s i (Beta_sub (i - (M s - 1))) (i - 3) q))"
      using "1.IH" [OF True] by simp
    then show ?thesis
      using True by (subst calculateQ_lr.simps) simp
  next
    case False
    then show ?thesis
      using "1.prems" by (subst calculateQ_lr.simps) simp
  qed
qed

text \<open>\<open>calculateQ\<close> on a valid domain of at least four intervals: no assertion fails, and
  the matrix it stores is a symmetric band matrix of \<open>M + 1\<close> rows.\<close>

lemma calculateQ_band:
  assumes "valid_domain s" and "4 \<le> M s"
  shows "\<exists>q. calculateQ qdelta Beta_sub s = Inr (s\<lparr>Q := q\<rparr>) \<and> band_inv (M s + 1) q"
proof -
  let ?q1 = "calculateQ_fill s 0 (newsize (M s + 1) (M s + 1) 0)"
  have "band_inv (M s + 1) ?q1"
    by (intro band_inv_fill band_inv_newsize)
  then obtain q2 where q2: "calculateQ_ul qdelta s 0 ?q1 = Inr q2" "band_inv (M s + 1) q2"
    using band_inv_ul [OF assms, of 0 "M s + 1" ?q1 qdelta] by auto
  have "band_inv (M s + 1) (calculateQ_lr qdelta Beta_sub s (M s - 1) q2)"
    using q2(2) by (rule band_inv_lr)
  moreover have "calculateQ qdelta Beta_sub s =
      Inr (s\<lparr>Q := calculateQ_lr qdelta Beta_sub s (M s - 1) q2\<rparr>)"
    using q2(1) by (simp add: calculateQ_def Let_def)
  ultimately show ?thesis by blast
qed

lemma band_inv_addP_n:
  "valid_domain s \<Longrightarrow> m < n \<Longrightarrow> band_inv k p \<Longrightarrow>
   \<exists>p'. addP_n s x m n p = Some (Inr p') \<and> band_inv k p'"
proof (induction s x m n p rule: addP_n.induct)
  case (1 s x m n p)
  note v = "1.prems"(1)
  show ?case
  proof (cases "n \<le> min (M s) (m + 3)")
    case True
    note bm = Basis_eq [OF v, of m x] and bn = Basis_eq [OF v, of n x]
    let ?sm = "Basis_val s m x * Basis_val s n x * DX s"
    have eq: "addP_n s x m n p = addP_n s x m (n + 1) (add0 (add0 p m n ?sm) n m ?sm)"
      using True bm bn by (subst addP_n.simps) (simp add: Let_def)
    have "band_inv k (add0 (add0 p m n ?sm) n m ?sm)"
      using "1.prems" True by (intro band_inv_add_pair) auto
    then have "\<exists>p'. addP_n s x m (n + 1) (add0 (add0 p m n ?sm) n m ?sm) = Some (Inr p') \<and>
        band_inv k p'"
      using "1.IH" [OF True bm refl bn refl refl v] "1.prems" by simp
    then show ?thesis
      using eq by simp
  next
    case False
    then show ?thesis
      using "1.prems" by (subst addP_n.simps) auto
  qed
qed

lemma band_inv_addP_m:
  "valid_domain s \<Longrightarrow> band_inv k p \<Longrightarrow>
   \<exists>p'. addP_m s x m p = Some (Inr p') \<and> band_inv k p'"
proof (induction s x m p rule: addP_m.induct)
  case (1 s x m p)
  note v = "1.prems"(1)
  show ?case
  proof (cases "m \<le> min (M s) (m + 2)")
    case True
    note bm = Basis_eq [OF v, of m x]
    let ?sm = "Basis_val s m x * Basis_val s m x * DX s"
    have "band_inv k (add0 p m m ?sm)"
      using "1.prems" by (intro band_inv_add_diag)
    then obtain p1 where p1: "addP_n s x m (m + 1) (add0 p m m ?sm) = Some (Inr p1)" "band_inv k p1"
      using band_inv_addP_n [OF v, of m "m + 1" k "add0 p m m ?sm" x] by auto
    have eq: "addP_m s x m p = addP_m s x (m + 1) p1"
      using True bm p1(1) by (subst addP_m.simps) (simp add: Let_def)
    show ?thesis
      using "1.IH" [OF True bm refl refl p1(1) refl v p1(2)] eq by simp
  next
    case False
    then show ?thesis
      using "1.prems" by (subst addP_m.simps) auto
  qed
qed

lemma band_inv_addP_i:
  "valid_domain s \<Longrightarrow> NX s = int (length (X s)) \<Longrightarrow> 0 \<le> i \<Longrightarrow> band_inv k p \<Longrightarrow>
   \<exists>p'. addP_i s i p = Some (Inr p') \<and> band_inv k p'"
proof (induction s i p rule: addP_i.induct)
  case (1 s i p)
  note v = "1.prems"(1)
  show ?case
  proof (cases "i < NX s")
    case True
    have x: "vec_at (X s) i = Inr (X s ! nat i)"
      using True "1.prems" by (simp add: vec_at_in)
    let ?x = "X s ! nat i"
    let ?m = "float_to_int ((?x - xmin s) / DX s)"
    obtain p1 where p1: "addP_m s ?x (max 0 (?m - 2)) p = Some (Inr p1)" "band_inv k p1"
      using band_inv_addP_m [OF v "1.prems"(4), of ?x "max 0 (?m - 2)"] by auto
    have eq: "addP_i s i p = addP_i s (i + 1) p1"
      using True x p1(1) by (subst addP_i.simps) (simp add: Let_def)
    show ?thesis
      using "1.IH" [OF True x refl p1(1) refl v "1.prems"(2) _ p1(2)] "1.prems"(3) eq by simp
  next
    case False
    then show ?thesis
      using "1.prems" by (subst addP_i.simps) simp
  qed
qed

lemma band_inv_mat_add:
  assumes "band_inv n a" and "band_inv n b"
  shows "\<exists>q. mat_add a b = Inr q \<and> band_inv n q"
proof -
  let ?q = "a\<lparr>elems := (\<lambda>i j.
             if 0 \<le> i \<and> i < num_rows a \<and> 0 \<le> j \<and> j < num_cols a
             then elems a i j + elems b i j else elems a i j)\<rparr>"
  have "mat_add a b = Inr ?q"
    using assms by (simp add: mat_add_def band_inv_def)
  moreover have "band_inv n ?q"
    using assms by (auto simp: band_inv_def)
  ultimately show ?thesis by blast
qed

text \<open>\<open>addP\<close> on a valid domain whose \<open>Q\<close> is a symmetric band matrix of \<open>M + 1\<close> rows.\<close>

lemma addP_band:
  assumes "valid_domain s" and "NX s = int (length (X s))" and "band_inv (M s + 1) (Q s)"
  shows "\<exists>q. addP s = Some (Inr (s\<lparr>Q := q\<rparr>)) \<and> band_inv (M s + 1) q"
proof -
  obtain p where p: "addP_i s 0 (newsize (M s + 1) (M s + 1) 0) = Some (Inr p)"
      "band_inv (M s + 1) p"
    using band_inv_addP_i [OF assms(1,2), of 0 "M s + 1" "newsize (M s + 1) (M s + 1) 0"]
      band_inv_newsize [of "M s + 1"] by auto
  obtain q where q: "mat_add (Q s) p = Inr q" "band_inv (M s + 1) q"
    using band_inv_mat_add [OF assms(3) p(2)] by auto
  have "addP s = Some (Inr (s\<lparr>Q := q\<rparr>))"
    using p(1) q(1) by (simp add: addP_def)
  then show ?thesis using q(2) by blast
qed

text \<open>
  C2. On a valid domain of at least four intervals, \<open>calculateQ\<close> followed by \<open>addP\<close>
  ends without a failed assertion and leaves a matrix \<open>Q\<close> of \<open>M + 1\<close> rows and columns
  that is symmetric, \<open>Q[i][j] = Q[j][i]\<close> for all \<open>i\<close>, \<open>j\<close> in \<open>0..M\<close>, and banded,
  \<open>Q[i][j] = 0\<close> whenever \<open>i\<close> and \<open>j\<close> are more than three apart. This holds for every
  vector \<open>qdelta\<close> and every reading of \<open>Beta[k]\<close>.
\<close>

theorem assembled_Q_symmetric_banded:
  assumes "valid_domain s" and "4 \<le> M s" and "NX s = int (length (X s))"
  shows "\<exists>s1 s2. calculateQ qdelta Beta_sub s = Inr s1 \<and> addP s1 = Some (Inr s2) \<and>
     num_rows (Q s2) = M s + 1 \<and> num_cols (Q s2) = M s + 1 \<and>
     (\<forall>i j. 0 \<le> i \<and> i \<le> M s \<and> 0 \<le> j \<and> j \<le> M s \<longrightarrow> sub0 (Q s2) i j = sub0 (Q s2) j i) \<and>
     (\<forall>i j. 0 \<le> i \<and> i \<le> M s \<and> 0 \<le> j \<and> j \<le> M s \<and> 3 < \<bar>i - j\<bar> \<longrightarrow> sub0 (Q s2) i j = 0)"
proof -
  obtain q where q: "calculateQ qdelta Beta_sub s = Inr (s\<lparr>Q := q\<rparr>)" "band_inv (M s + 1) q"
    using calculateQ_band [OF assms(1,2)] by blast
  let ?s1 = "s\<lparr>Q := q\<rparr>"
  have v1: "valid_domain ?s1"
    using assms(1) by (simp add: valid_domain_def)
  have n1: "NX ?s1 = int (length (X ?s1))"
    using assms(3) by simp
  have b1: "band_inv (M ?s1 + 1) (Q ?s1)"
    using q(2) by simp
  obtain q' where q': "addP ?s1 = Some (Inr (?s1\<lparr>Q := q'\<rparr>))" "band_inv (M ?s1 + 1) q'"
    using addP_band [OF v1 n1 b1] by blast
  have "num_rows q' = M s + 1 \<and> num_cols q' = M s + 1 \<and>
      (\<forall>i j. sub0 q' i j = sub0 q' j i) \<and> (\<forall>i j. 3 < \<bar>i - j\<bar> \<longrightarrow> sub0 q' i j = 0)"
    using q'(2) by (simp add: band_inv_def sub0_def)
  then show ?thesis
    using q(1) q'(1) by (intro exI [of _ ?s1] exI [of _ "?s1\<lparr>Q := q'\<rparr>"]) simp
qed

theorem assembled_Q_symmetric_banded_witness:
  "valid_domain domain11 \<and> 4 \<le> M domain11 \<and> NX domain11 = int (length (X domain11)) \<and>
   (\<exists>s1 s2. calculateQ (\<lambda>k. 1) (\<lambda>k. 0) domain11 = Inr s1 \<and> addP s1 = Some (Inr s2) \<and>
      num_rows (Q s2) = 11 \<and> sub0 (Q s2) 2 4 = sub0 (Q s2) 4 2 \<and> sub0 (Q s2) 1 6 = 0)"
proof -
  have h1: "valid_domain domain11" by (rule valid_domain11)
  have h2: "4 \<le> M domain11" by (simp add: domain11_fields)
  have h3: "NX domain11 = int (length (X domain11))"
    by (simp add: domain11_fields samples_11)
  from assembled_Q_symmetric_banded [OF h1 h2 h3, of "\<lambda>k. 1" "\<lambda>k. 0"] obtain s1 s2 where
    a: "calculateQ (\<lambda>k. 1) (\<lambda>k. 0) domain11 = Inr s1" "addP s1 = Some (Inr s2)"
      "num_rows (Q s2) = M domain11 + 1"
    and sym: "\<forall>i j. 0 \<le> i \<and> i \<le> M domain11 \<and> 0 \<le> j \<and> j \<le> M domain11 \<longrightarrow>
        sub0 (Q s2) i j = sub0 (Q s2) j i"
    and band: "\<forall>i j. 0 \<le> i \<and> i \<le> M domain11 \<and> 0 \<le> j \<and> j \<le> M domain11 \<and> 3 < \<bar>i - j\<bar> \<longrightarrow>
        sub0 (Q s2) i j = 0"
    by blast
  have "sub0 (Q s2) 2 4 = sub0 (Q s2) 4 2"
    using sym [rule_format, of 2 4] by (simp add: domain11_fields)
  moreover have "sub0 (Q s2) 1 6 = 0"
    using band [rule_format, of 1 6] by (simp add: domain11_fields)
  moreover have "num_rows (Q s2) = 11"
    using a(3) by (simp add: domain11_fields)
  ultimately show ?thesis using a(1,2) h1 h2 h3 by blast
qed

section \<open>A wavelength longer than the span of the samples\<close>

lemma Min_le_Max_list: "xs \<noteq> [] \<Longrightarrow> Min (set xs) \<le> Max (set xs)"
proof -
  assume "xs \<noteq> []"
  then have "hd xs \<in> set xs" by simp
  then have "Min (set xs) \<le> hd xs" "hd xs \<le> Max (set xs)" by simp_all
  then show ?thesis by (rule order_trans)
qed

lemma Setup_minmax_Min_Max:
  "NX s = int (length (X s)) \<Longrightarrow> 1 \<le> i \<Longrightarrow> i \<le> NX s \<Longrightarrow>
   lo = Min (set (take (nat i) (X s))) \<Longrightarrow> hi = Max (set (take (nat i) (X s))) \<Longrightarrow>
   Setup_minmax s i lo hi = Inr (Min (set (X s)), Max (set (X s)))"
proof (induction s i lo hi rule: Setup_minmax.induct)
  case (1 s i lo hi)
  note nx = "1.prems"(1)
  let ?S = "set (take (nat i) (X s))"
  show ?case
  proof (cases "i < NX s")
    case True
    let ?xi = "X s ! nat i"
    have x: "vec_at (X s) i = Inr ?xi"
      using True "1.prems" by (simp add: vec_at_in)
    have ne: "take (nat i) (X s) \<noteq> []"
      using "1.prems" True by auto
    have fin: "finite ?S" "?S \<noteq> {}"
      using ne by simp_all
    have lh: "lo \<le> hi"
      using Min_le_Max_list [OF ne] "1.prems" by simp
    have "nat (i + 1) = Suc (nat i)"
      using "1.prems" by simp
    moreover have "nat i < length (X s)"
      using True "1.prems" by simp
    ultimately have tk: "set (take (nat (i + 1)) (X s)) = insert ?xi ?S"
      by (simp add: take_Suc_conv_app_nth)
    have mn: "Min (set (take (nat (i + 1)) (X s))) = min ?xi lo"
      unfolding tk using Min_insert [OF fin] "1.prems" by simp
    have mx: "Max (set (take (nat (i + 1)) (X s))) = max ?xi hi"
      unfolding tk using Max_insert [OF fin] "1.prems" by simp
    have rng: "1 \<le> i + 1" "i + 1 \<le> NX s"
      using "1.prems" True by simp_all
    have eq: "Setup_minmax s i lo hi =
        (if ?xi < lo then Setup_minmax s (i + 1) ?xi hi
         else if ?xi > hi then Setup_minmax s (i + 1) lo ?xi
         else Setup_minmax s (i + 1) lo hi)"
      using True x by (subst Setup_minmax.simps) simp
    consider (lt) "?xi < lo" | (gt) "\<not> ?xi < lo" "?xi > hi" | (mid) "\<not> ?xi < lo" "\<not> ?xi > hi"
      by blast
    then show ?thesis
    proof cases
      case lt
      have "?xi = Min (set (take (nat (i + 1)) (X s)))" "hi = Max (set (take (nat (i + 1)) (X s)))"
        using lt lh mn mx by simp_all
      then show ?thesis
        using "1.IH"(1) [OF True x lt nx rng] eq lt by simp
    next
      case gt
      have "lo = Min (set (take (nat (i + 1)) (X s)))" "?xi = Max (set (take (nat (i + 1)) (X s)))"
        using gt lh mn mx by simp_all
      then show ?thesis
        using "1.IH"(2) [OF True x gt nx rng] eq gt by simp
    next
      case mid
      have "lo = Min (set (take (nat (i + 1)) (X s)))" "hi = Max (set (take (nat (i + 1)) (X s)))"
        using mid lh mn mx by simp_all
      then show ?thesis
        using "1.IH"(3) [OF True x mid nx rng] eq mid by simp
    qed
  next
    case False
    then have "i = NX s" using "1.prems" by simp
    then have "take (nat i) (X s) = X s"
      using nx by simp
    then show ?thesis
      using False "1.prems" by (subst Setup_minmax.simps) simp
  qed
qed

text \<open>\<open>Setup\<close> with a wavelength longer than the span: it returns 0 and writes only
  \<open>xmin\<close> and \<open>xmax\<close>.\<close>

lemma Setup_wavelength_too_long:
  assumes "xs \<noteq> []" and "wl > Max (set xs) - Min (set xs)"
  shows "Setup (Copy (Reset s) xs wl) =
     Inr (0, (Copy (Reset s) xs wl)\<lparr>xmin := Min (set xs), xmax := Max (set xs)\<rparr>)"
proof -
  let ?s1 = "Copy (Reset s) xs wl"
  have f: "X ?s1 = xs" "NX ?s1 = int (length xs)" "waveLength ?s1 = wl"
    using assms(1) by (simp_all add: Copy_def Reset_def)
  have x0: "vec_at (X ?s1) 0 = Inr (xs ! 0)"
    using assms(1) f by (simp add: vec_at_def)
  have t1: "take (nat 1) (X ?s1) = [xs ! 0]"
    using assms(1) f by (cases xs) simp_all
  have mm: "Setup_minmax ?s1 1 (xs ! 0) (xs ! 0) = Inr (Min (set xs), Max (set xs))"
    using Setup_minmax_Min_Max [of ?s1 1 "xs ! 0" "xs ! 0"] assms(1) f t1
    by (cases xs) simp_all
  show ?thesis
    using Setup_unfold [OF x0 mm] assms(2) f by simp
qed

text \<open>
  C1, on the code. For samples \<open>xs\<close> and a wavelength longer than their span, \<open>Setup\<close>
  returns 0 and leaves \<open>M\<close> and \<open>DX\<close> as they were. \<open>setDomain\<close> does not read that code:
  on an object whose former grid was valid (at least four intervals) it goes on with
  that grid, builds a matrix \<open>Q\<close> of \<open>M + 1\<close> rows for it from the new samples and hands
  it to \<open>factor\<close>; what \<open>setDomain\<close> returns is what \<open>factor\<close> returns.
\<close>

theorem setDomain_after_failed_Setup:
  assumes "xs \<noteq> []" and "wl > Max (set xs) - Min (set xs)"
    and "valid_domain s" and "4 \<le> M s"
  shows "\<exists>s2 s5. Setup (Copy (Reset s) xs wl) = Inr (0, s2) \<and> M s2 = M s \<and> DX s2 = DX s \<and>
     M s5 = M s \<and> DX s5 = DX s \<and> X s5 = xs \<and>
     num_rows (Q s5) = M s + 1 \<and> num_cols (Q s5) = M s + 1 \<and>
     setDomain qdelta Beta_sub s xs wl = Some (factor s5)"
proof -
  let ?s2 = "(Copy (Reset s) xs wl)\<lparr>xmin := Min (set xs), xmax := Max (set xs)\<rparr>"
  let ?s3 = "?s2\<lparr>alpha := Alpha ?s2 (waveLength ?s2)\<rparr>"
  have su: "Setup (Copy (Reset s) xs wl) = Inr (0, ?s2)"
    using assms(1,2) by (rule Setup_wavelength_too_long)
  have f: "M ?s3 = M s" "DX ?s3 = DX s" "BC ?s3 = BC s" "X ?s3 = xs" "NX ?s3 = int (length xs)"
    using assms(1) by (simp_all add: Copy_def Reset_def)
  have v3: "valid_domain ?s3"
    using assms(3) unfolding valid_domain_def f by simp
  have m3: "4 \<le> M ?s3"
    using assms(4) unfolding f by simp
  obtain q where q: "calculateQ qdelta Beta_sub ?s3 = Inr (?s3\<lparr>Q := q\<rparr>)" "band_inv (M ?s3 + 1) q"
    using calculateQ_band [OF v3 m3] by blast
  let ?s4 = "?s3\<lparr>Q := q\<rparr>"
  have v4: "valid_domain ?s4"
    using v3 by (simp add: valid_domain_def)
  have n4: "NX ?s4 = int (length (X ?s4))"
    using assms(1) by (simp add: Copy_def Reset_def)
  have b4: "band_inv (M ?s4 + 1) (Q ?s4)"
    using q(2) by simp
  obtain q' where q': "addP ?s4 = Some (Inr (?s4\<lparr>Q := q'\<rparr>))" "band_inv (M ?s4 + 1) q'"
    using addP_band [OF v4 n4 b4] by blast
  let ?s5 = "?s4\<lparr>Q := q'\<rparr>"
  have sd: "setDomain qdelta Beta_sub s xs wl = Some (factor ?s5)"
    unfolding setDomain_def su using q(1) q'(1) by simp
  have g: "M ?s5 = M s" "DX ?s5 = DX s" "X ?s5 = xs"
    "num_rows (Q ?s5) = M s + 1" "num_cols (Q ?s5) = M s + 1"
    using assms(1) q'(2) by (simp_all add: Copy_def Reset_def band_inv_def)
  have h: "M ?s2 = M s" "DX ?s2 = DX s"
    by (simp_all add: Copy_def Reset_def)
  from su h g sd show ?thesis by blast
qed

theorem setDomain_after_failed_Setup_witness:
  "[0, 1, 2] \<noteq> ([] :: real list) \<and> (5::real) > Max (set [0, 1, 2]) - Min (set [0, 1, 2]) \<and>
   valid_domain domain11 \<and> 4 \<le> M domain11 \<and>
   (\<exists>s2 s5. Setup (Copy (Reset domain11) [0, 1, 2] 5) = Inr (0, s2) \<and> M s2 = 10 \<and>
      X s5 = [0, 1, 2] \<and> M s5 = 10 \<and> num_rows (Q s5) = 11 \<and>
      setDomain (\<lambda>k. 1) (\<lambda>k. 0) domain11 [0, 1, 2] 5 = Some (factor s5))"
proof -
  have h1: "[0, 1, 2] \<noteq> ([] :: real list)" by simp
  have h2: "(5::real) > Max (set [0, 1, 2]) - Min (set [0, 1, 2])" by simp
  have h3: "valid_domain domain11" by (rule valid_domain11)
  have h4: "4 \<le> M domain11" by (simp add: domain11_fields)
  from setDomain_after_failed_Setup [OF h1 h2 h3 h4, of "\<lambda>k. 1" "\<lambda>k. 0"]
  have "\<exists>s2 s5. Setup (Copy (Reset domain11) [0, 1, 2] 5) = Inr (0, s2) \<and> M s2 = 10 \<and>
      X s5 = [0, 1, 2] \<and> M s5 = 10 \<and> num_rows (Q s5) = 11 \<and>
      setDomain (\<lambda>k. 1) (\<lambda>k. 0) domain11 [0, 1, 2] 5 = Some (factor s5)"
    unfolding domain11_fields by auto
  then show ?thesis using h1 h2 h3 h4 by blast
qed

section \<open>The banded factorization\<close>

lemma LU_pivot_char:
  "j \<le> jp \<Longrightarrow> jp < i \<Longrightarrow> t = \<bar>sub1 a jp j\<bar> \<Longrightarrow>
   (\<forall>k. j \<le> k \<and> k < i \<longrightarrow> \<bar>sub1 a k j\<bar> \<le> t) \<Longrightarrow>
   LU_pivot a rows bands j i jp t = (jp', t') \<Longrightarrow>
   j \<le> jp' \<and> (jp' < i \<or> jp' \<le> min (j + bands) rows) \<and> t' = \<bar>sub1 a jp' j\<bar> \<and>
   (\<forall>k. j \<le> k \<and> (k < i \<or> k \<le> min (j + bands) rows) \<longrightarrow> \<bar>sub1 a k j\<bar> \<le> t')"
proof (induction a rows bands j i jp t rule: LU_pivot.induct)
  case (1 a rows bands j i jp t)
  show ?case
  proof (cases "i \<le> min (j + bands) rows")
    case True
    show ?thesis
    proof (cases "\<bar>sub1 a i j\<bar> > t")
      case gt: True
      have rec: "LU_pivot a rows bands j (i + 1) i \<bar>sub1 a i j\<bar> = (jp', t')"
        using "1.prems"(5) True gt by (subst (asm) LU_pivot.simps) simp
      have inv: "\<forall>k. j \<le> k \<and> k < i + 1 \<longrightarrow> \<bar>sub1 a k j\<bar> \<le> \<bar>sub1 a i j\<bar>"
      proof (intro allI impI)
        fix k assume k: "j \<le> k \<and> k < i + 1"
        show "\<bar>sub1 a k j\<bar> \<le> \<bar>sub1 a i j\<bar>"
        proof (cases "k = i")
          case True
          then show ?thesis by simp
        next
          case False
          then have "\<bar>sub1 a k j\<bar> \<le> t" using k "1.prems"(4) by simp
          then show ?thesis using gt by simp
        qed
      qed
      have ji: "j \<le> i" using "1.prems"(1,2) by simp
      have ii: "i < i + 1" by simp
      have r: "j \<le> jp' \<and> (jp' < i + 1 \<or> jp' \<le> min (j + bands) rows) \<and> t' = \<bar>sub1 a jp' j\<bar> \<and>
          (\<forall>k. j \<le> k \<and> (k < i + 1 \<or> k \<le> min (j + bands) rows) \<longrightarrow> \<bar>sub1 a k j\<bar> \<le> t')"
        by (rule "1.IH"(1) [OF True gt ji ii refl inv rec])
      then show ?thesis using True by auto
    next
      case le: False
      have rec: "LU_pivot a rows bands j (i + 1) jp t = (jp', t')"
        using "1.prems"(5) True le by (subst (asm) LU_pivot.simps) simp
      have inv: "\<forall>k. j \<le> k \<and> k < i + 1 \<longrightarrow> \<bar>sub1 a k j\<bar> \<le> t"
      proof (intro allI impI)
        fix k assume k: "j \<le> k \<and> k < i + 1"
        show "\<bar>sub1 a k j\<bar> \<le> t"
        proof (cases "k = i")
          case True
          then show ?thesis using le by simp
        next
          case False
          then show ?thesis using k "1.prems"(4) by simp
        qed
      qed
      have lt: "jp < i + 1" using "1.prems"(2) by simp
      have r: "j \<le> jp' \<and> (jp' < i + 1 \<or> jp' \<le> min (j + bands) rows) \<and> t' = \<bar>sub1 a jp' j\<bar> \<and>
          (\<forall>k. j \<le> k \<and> (k < i + 1 \<or> k \<le> min (j + bands) rows) \<longrightarrow> \<bar>sub1 a k j\<bar> \<le> t')"
        by (rule "1.IH"(2) [OF True le "1.prems"(1) lt "1.prems"(3) inv rec])
      then show ?thesis using True by auto
    qed
  next
    case False
    have "LU_pivot a rows bands j i jp t = (jp, t)"
      by (subst LU_pivot.simps) (simp only: False if_False)
    then have e: "jp' = jp" "t' = t"
      using "1.prems"(5) by simp_all
    have "\<forall>k. j \<le> k \<and> (k < i \<or> k \<le> min (j + bands) rows) \<longrightarrow> k < i"
      using False by auto
    then show ?thesis
      unfolding e using "1.prems"(1-4) by blast
  qed
qed

text \<open>The pivot row chosen in column \<open>j\<close> lies in the rows \<open>j..min (j + bands, rows)\<close> and
  holds an entry of the largest magnitude among them.\<close>

lemma LU_chosen_max:
  assumes "j \<le> rows" and "0 \<le> bands"
  shows "j \<le> LU_chosen a rows bands j \<and> LU_chosen a rows bands j \<le> min (j + bands) rows \<and>
     (\<forall>k. j \<le> k \<and> k \<le> min (j + bands) rows \<longrightarrow>
        \<bar>sub1 a k j\<bar> \<le> \<bar>sub1 a (LU_chosen a rows bands j) j\<bar>)"
proof -
  obtain jp' t' where p: "LU_pivot a rows bands j (j + 1) j \<bar>sub1 a j j\<bar> = (jp', t')"
    by (cases "LU_pivot a rows bands j (j + 1) j \<bar>sub1 a j j\<bar>")
  have inv: "\<forall>k. j \<le> k \<and> k < j + 1 \<longrightarrow> \<bar>sub1 a k j\<bar> \<le> \<bar>sub1 a j j\<bar>"
  proof (intro allI impI)
    fix k :: int assume "j \<le> k \<and> k < j + 1"
    then have "k = j" by linarith
    then show "\<bar>sub1 a k j\<bar> \<le> \<bar>sub1 a j j\<bar>" by simp
  qed
  have jj: "j \<le> j" "j < j + 1" by simp_all
  have "j \<le> jp' \<and> (jp' < j + 1 \<or> jp' \<le> min (j + bands) rows) \<and> t' = \<bar>sub1 a jp' j\<bar> \<and>
      (\<forall>k. j \<le> k \<and> (k < j + 1 \<or> k \<le> min (j + bands) rows) \<longrightarrow> \<bar>sub1 a k j\<bar> \<le> t')"
    by (rule LU_pivot_char [OF jj refl inv p])
  then show ?thesis
    using assms by (auto simp: LU_chosen_def p)
qed

lemma sub1_set1: "sub1 (set1 a i j v) r c = (if r = i \<and> c = j then v else sub1 a r c)"
proof -
  have "sub1 (set1 a i j v) r c = ((elems a)(i - 1 := (elems a (i - 1))(j - 1 := v))) (r - 1) (c - 1)"
    by (simp add: sub1_def set1_def set0_def)
  also have "\<dots> = (if r = i \<and> c = j then v else elems a (r - 1) (c - 1))"
    by (simp add: fun_upd_def)
  finally show ?thesis by (simp add: sub1_def)
qed

text \<open>\<open>LU_swap\<close> from column \<open>k\<close>: in the columns \<open>k..cols\<close> the rows \<open>j\<close> and \<open>jp\<close> change
  places, everything else stays.\<close>

lemma LU_swap_char:
  "sub1 (LU_swap a cols j jp k) r c =
     (if k \<le> c \<and> c \<le> cols then
        (if r = j then sub1 a jp c else if r = jp then sub1 a j c else sub1 a r c)
      else sub1 a r c)"
proof (induction a cols j jp k arbitrary: r c rule: LU_swap.induct)
  case (1 a cols j jp k)
  show ?case
  proof (cases "k \<le> cols")
    case True
    let ?a2 = "set1 (set1 a j k (sub1 a jp k)) jp k (sub1 a j k)"
    have eq: "LU_swap a cols j jp k = LU_swap ?a2 cols j jp (k + 1)"
      using True by (subst LU_swap.simps) (simp add: Let_def)
    have "sub1 (LU_swap ?a2 cols j jp (k + 1)) r c =
        (if k + 1 \<le> c \<and> c \<le> cols then
           (if r = j then sub1 ?a2 jp c else if r = jp then sub1 ?a2 j c else sub1 ?a2 r c)
         else sub1 ?a2 r c)"
      using "1.IH" [OF True refl refl refl] by simp
    then have ih: "sub1 (LU_swap a cols j jp k) r c =
        (if k + 1 \<le> c \<and> c \<le> cols then
           (if r = j then sub1 ?a2 jp c else if r = jp then sub1 ?a2 j c else sub1 ?a2 r c)
         else sub1 ?a2 r c)"
      unfolding eq .
    show ?thesis
    proof (cases "c = k")
      case eq: True
      then show ?thesis
        unfolding ih using True by (simp add: sub1_set1)
    next
      case False
      then have "(k + 1 \<le> c) = (k \<le> c)" by auto
      then show ?thesis
        unfolding ih using False by (simp add: sub1_set1)
    qed
  next
    case False
    then show ?thesis
      by (subst LU_swap.simps) simp
  qed
qed

lemma zero_pivot_at_0:
  "zero_pivot_at a rows cols minMN bands j 0 = (sub1 a (LU_chosen a rows bands j) j = 0)"
  by (simp add: zero_pivot_at_def)

lemma zero_pivot_at_Suc:
  "zero_pivot_at a rows cols minMN bands j (Suc n) =
     zero_pivot_at (LU_eliminate a rows cols minMN j (LU_chosen a rows bands j))
       rows cols minMN bands (j + 1) n"
proof -
  have "j + int (Suc n) = j + 1 + int n" by simp
  then show ?thesis
    unfolding zero_pivot_at_def LU_after.simps by (simp only:)
qed

lemma LU_cols_step:
  assumes "j \<le> minMN"
  shows "LU_cols a indx rows cols minMN bands j =
     (if sub1 a (LU_chosen a rows bands j) j = 0
      then (1, a, indx[nat (j - 1) := LU_chosen a rows bands j])
      else LU_cols (LU_eliminate a rows cols minMN j (LU_chosen a rows bands j))
             (indx[nat (j - 1) := LU_chosen a rows bands j]) rows cols minMN bands (j + 1))"
proof -
  obtain jp t where p: "LU_pivot a rows bands j (j + 1) j \<bar>sub1 a j j\<bar> = (jp, t)"
    by (cases "LU_pivot a rows bands j (j + 1) j \<bar>sub1 a j j\<bar>")
  then have c: "LU_chosen a rows bands j = jp"
    by (simp add: LU_chosen_def)
  show ?thesis
    unfolding c using assms p by (subst LU_cols.simps) (simp add: Let_def)
qed

text \<open>The code that the loop over the columns returns: 1 exactly when some pass chooses a
  pivot that is zero.\<close>

lemma LU_cols_code:
  "fst (LU_cols a indx rows cols minMN bands j) =
     (if \<exists>n. j + int n \<le> minMN \<and> zero_pivot_at a rows cols minMN bands j n then 1 else 0)"
proof (induction a indx rows cols minMN bands j rule: LU_cols.induct)
  case (1 a indx rows cols minMN bands j)
  show ?case
  proof (cases "j \<le> minMN")
    case True
    note step = LU_cols_step [OF True, of a indx rows cols bands]
    let ?jp = "LU_chosen a rows bands j"
    show ?thesis
    proof (cases "sub1 a ?jp j = 0")
      case zero: True
      have "j + int 0 \<le> minMN \<and> zero_pivot_at a rows cols minMN bands j 0"
        using True zero by (simp add: zero_pivot_at_0)
      then have "\<exists>n. j + int n \<le> minMN \<and> zero_pivot_at a rows cols minMN bands j n"
        by blast
      then show ?thesis
        using step zero by simp
    next
      case nz: False
      let ?a' = "LU_eliminate a rows cols minMN j ?jp"
      obtain jp t where p: "LU_pivot a rows bands j (j + 1) j \<bar>sub1 a j j\<bar> = (jp, t)"
        by (cases "LU_pivot a rows bands j (j + 1) j \<bar>sub1 a j j\<bar>")
      then have c: "?jp = jp"
        by (simp add: LU_chosen_def)
      have nz': "sub1 a jp j \<noteq> 0" using nz c by simp
      have ih: "fst (LU_cols ?a' (indx[nat (j - 1) := ?jp]) rows cols minMN bands (j + 1)) =
          (if \<exists>n. j + 1 + int n \<le> minMN \<and> zero_pivot_at ?a' rows cols minMN bands (j + 1) n
           then 1 else 0)"
        using "1.IH" [OF True p [symmetric] refl nz'] unfolding c by simp
      have "(\<exists>n. j + int n \<le> minMN \<and> zero_pivot_at a rows cols minMN bands j n) \<longleftrightarrow>
          (\<exists>n. j + 1 + int n \<le> minMN \<and> zero_pivot_at ?a' rows cols minMN bands (j + 1) n)"
      proof
        assume "\<exists>n. j + int n \<le> minMN \<and> zero_pivot_at a rows cols minMN bands j n"
        then obtain n where n: "j + int n \<le> minMN" "zero_pivot_at a rows cols minMN bands j n"
          by blast
        have "n \<noteq> 0"
        proof
          assume "n = 0"
          then have "zero_pivot_at a rows cols minMN bands j 0" using n(2) by simp
          then show False using nz by (simp add: zero_pivot_at_0)
        qed
        then obtain n' where n': "n = Suc n'" by (cases n) simp_all
        have "j + 1 + int n' \<le> minMN \<and> zero_pivot_at ?a' rows cols minMN bands (j + 1) n'"
          using n unfolding n' zero_pivot_at_Suc by simp
        then show "\<exists>n. j + 1 + int n \<le> minMN \<and> zero_pivot_at ?a' rows cols minMN bands (j + 1) n"
          by blast
      next
        assume "\<exists>n. j + 1 + int n \<le> minMN \<and> zero_pivot_at ?a' rows cols minMN bands (j + 1) n"
        then obtain n where n: "j + 1 + int n \<le> minMN"
            "zero_pivot_at ?a' rows cols minMN bands (j + 1) n"
          by blast
        have "j + int (Suc n) \<le> minMN \<and> zero_pivot_at a rows cols minMN bands j (Suc n)"
          using n unfolding zero_pivot_at_Suc by simp
        then show "\<exists>n. j + int n \<le> minMN \<and> zero_pivot_at a rows cols minMN bands j n"
          by blast
      qed
      then show ?thesis
        using step nz ih by simp
    qed
  next
    case False
    then have "\<not> (\<exists>n. j + int n \<le> minMN \<and> zero_pivot_at a rows cols minMN bands j n)"
      by auto
    moreover have "LU_cols a indx rows cols minMN bands j = (0, a, indx)"
      using False by (subst LU_cols.simps) simp
    ultimately show ?thesis by simp
  qed
qed

lemma LU_factor_banded_code:
  assumes "num_rows a = n" and "num_cols a = n" and "1 \<le> n"
  shows "fst (LU_factor_banded a indx bands) =
     (if \<exists>m. 1 + int m \<le> n \<and> zero_pivot_at a n n n bands 1 m then 1 else 0)"
  using assms LU_cols_code [of a _ n n n bands 1]
  by (simp add: LU_factor_banded_def Let_def)

lemma matrix_0123_entries:
  "num_rows matrix_0123 = 2" "num_cols matrix_0123 = 2"
  "sub1 matrix_0123 1 1 = 0" "sub1 matrix_0123 1 2 = 1"
  "sub1 matrix_0123 2 1 = 2" "sub1 matrix_0123 2 2 = 3"
  by (simp_all add: matrix_0123_def sub1_def set0_def newsize_def)

lemma LU_chosen_0123: "LU_chosen matrix_0123 2 3 1 = 2"
  by (simp add: LU_chosen_def LU_pivot.simps matrix_0123_entries)

lemma LU_factor_banded_0123: "fst (LU_factor_banded matrix_0123 [] 3) = 0"
  by (simp add: LU_factor_banded_def Let_def LU_cols.simps LU_pivot.simps LU_eliminate_def
      LU_swap.simps LU_scale.simps LU_update_ii.simps LU_update_jj.simps sub1_set1
      matrix_0123_entries)

lemma matrix_1224_entries:
  "num_rows matrix_1224 = 2" "num_cols matrix_1224 = 2"
  "sub1 matrix_1224 1 1 = 1" "sub1 matrix_1224 1 2 = 2"
  "sub1 matrix_1224 2 1 = 2" "sub1 matrix_1224 2 2 = 4"
  by (simp_all add: matrix_1224_def sub1_def set0_def newsize_def)

lemma LU_factor_banded_1224: "fst (LU_factor_banded matrix_1224 [] 3) = 1"
  by (simp add: LU_factor_banded_def Let_def LU_cols.simps LU_pivot.simps LU_eliminate_def
      LU_swap.simps LU_scale.simps LU_update_ii.simps LU_update_jj.simps sub1_set1
      matrix_1224_entries)

section \<open>One pass of the factorization\<close>

lemma LU_scale_char:
  "sub1 (LU_scale a rows j recp k) r c =
     (if c = j \<and> k \<le> r \<and> r \<le> rows then sub1 a r c * recp else sub1 a r c)"
proof (induction a rows j recp k arbitrary: r c rule: LU_scale.induct)
  case (1 a rows j recp k)
  show ?case
  proof (cases "k \<le> rows")
    case True
    let ?a1 = "set1 a k j (sub1 a k j * recp)"
    have eq: "LU_scale a rows j recp k = LU_scale ?a1 rows j recp (k + 1)"
      using True by (subst LU_scale.simps) simp
    have ih: "sub1 (LU_scale a rows j recp k) r c =
        (if c = j \<and> k + 1 \<le> r \<and> r \<le> rows then sub1 ?a1 r c * recp else sub1 ?a1 r c)"
      unfolding eq using "1.IH" [OF True] by simp
    show ?thesis
    proof (cases "r = k")
      case True
      then show ?thesis
        unfolding ih using \<open>k \<le> rows\<close> by (simp add: sub1_set1)
    next
      case False
      then have "(k + 1 \<le> r) = (k \<le> r)" by auto
      then show ?thesis
        unfolding ih using False by (simp add: sub1_set1)
    qed
  next
    case False
    then show ?thesis
      by (subst LU_scale.simps) simp
  qed
qed

lemma LU_update_jj_char:
  "j < jj \<Longrightarrow> ii \<noteq> j \<Longrightarrow>
   sub1 (LU_update_jj a cols j ii jj) r c =
     (if r = ii \<and> jj \<le> c \<and> c \<le> cols then sub1 a r c - sub1 a ii j * sub1 a j c
      else sub1 a r c)"
proof (induction a cols j ii jj arbitrary: r c rule: LU_update_jj.induct)
  case (1 a cols j ii jj)
  show ?case
  proof (cases "jj \<le> cols")
    case True
    let ?a1 = "set1 a ii jj (sub1 a ii jj - sub1 a ii j * sub1 a j jj)"
    have eq: "LU_update_jj a cols j ii jj = LU_update_jj ?a1 cols j ii (jj + 1)"
      using True by (subst LU_update_jj.simps) simp
    have lt: "j < jj + 1" using "1.prems"(1) by simp
    have ih: "sub1 (LU_update_jj a cols j ii jj) r c =
        (if r = ii \<and> jj + 1 \<le> c \<and> c \<le> cols then sub1 ?a1 r c - sub1 ?a1 ii j * sub1 ?a1 j c
         else sub1 ?a1 r c)"
      unfolding eq using "1.IH" [OF True lt "1.prems"(2)] by simp
    have keep: "sub1 ?a1 ii j = sub1 a ii j" "\<And>c. sub1 ?a1 j c = sub1 a j c"
      using "1.prems" by (simp_all add: sub1_set1)
    show ?thesis
    proof (cases "r = ii \<and> c = jj")
      case True
      then show ?thesis
        unfolding ih keep using \<open>jj \<le> cols\<close> by (simp add: sub1_set1)
    next
      case False
      have "r = ii \<Longrightarrow> (jj + 1 \<le> c) = (jj \<le> c)"
        using False by auto
      then show ?thesis
        unfolding ih keep using False by (auto simp: sub1_set1)
    qed
  next
    case False
    then show ?thesis
      by (subst LU_update_jj.simps) simp
  qed
qed

lemma LU_update_ii_char:
  "j < ii \<Longrightarrow>
   sub1 (LU_update_ii a rows cols j ii) r c =
     (if ii \<le> r \<and> r \<le> rows \<and> j < c \<and> c \<le> cols then sub1 a r c - sub1 a r j * sub1 a j c
      else sub1 a r c)"
proof (induction a rows cols j ii arbitrary: r c rule: LU_update_ii.induct)
  case (1 a rows cols j ii)
  show ?case
  proof (cases "ii \<le> rows")
    case True
    let ?a1 = "LU_update_jj a cols j ii (j + 1)"
    have eq: "LU_update_ii a rows cols j ii = LU_update_ii ?a1 rows cols j (ii + 1)"
      using True by (subst LU_update_ii.simps) simp
    have lt: "j < ii + 1" using "1.prems" by simp
    have ne: "ii \<noteq> j" using "1.prems" by simp
    have jj: "j < j + 1" by simp
    note row = LU_update_jj_char [OF jj ne, of a cols]
    have ih: "sub1 (LU_update_ii a rows cols j ii) r c =
        (if ii + 1 \<le> r \<and> r \<le> rows \<and> j < c \<and> c \<le> cols
         then sub1 ?a1 r c - sub1 ?a1 r j * sub1 ?a1 j c
         else sub1 ?a1 r c)"
      unfolding eq using "1.IH" [OF True lt] by simp
    show ?thesis
    proof (cases "r = ii")
      case True
      then show ?thesis
        unfolding ih row using \<open>ii \<le> rows\<close> by auto
    next
      case False
      then have "(ii + 1 \<le> r) = (ii \<le> r)" by auto
      then show ?thesis
        unfolding ih row using False ne by auto
    qed
  next
    case False
    then show ?thesis
      by (subst LU_update_ii.simps) simp
  qed
qed

text \<open>The entries after one pass, from the entries \<open>p\<close> of the matrix whose rows \<open>j\<close> and
  \<open>jp\<close> have changed places.\<close>

lemma LU_eliminate_char:
  assumes "j \<le> n"
  shows "sub1 (LU_eliminate a n n n j jp) r c =
     (if j < r \<and> r \<le> n \<and> c = j
      then sub1 (LU_swap a n j jp 1) r j * (1 / sub1 (LU_swap a n j jp 1) j j)
      else if j < r \<and> r \<le> n \<and> j < c \<and> c \<le> n
      then sub1 (LU_swap a n j jp 1) r c -
           sub1 (LU_swap a n j jp 1) r j * (1 / sub1 (LU_swap a n j jp 1) j j) *
             sub1 (LU_swap a n j jp 1) j c
      else sub1 (LU_swap a n j jp 1) r c)"
proof -
  let ?a1 = "if jp \<noteq> j then LU_swap a n j jp 1 else a"
  have same: "\<And>r c. sub1 ?a1 r c = sub1 (LU_swap a n j jp 1) r c"
    by (simp add: LU_swap_char)
  let ?a2 = "LU_scale ?a1 n j (1 / sub1 ?a1 j j) (j + 1)"
  have jj: "j < j + 1" by simp
  show ?thesis
  proof (cases "j < n")
    case True
    have e: "LU_eliminate a n n n j jp = LU_update_ii ?a2 n n j (j + 1)"
      using True by (simp add: LU_eliminate_def Let_def)
    show ?thesis
      unfolding e LU_update_ii_char [OF jj] LU_scale_char same by auto
  next
    case False
    then have e: "LU_eliminate a n n n j jp = ?a1"
      by (simp add: LU_eliminate_def Let_def)
    have no: "(j < r \<and> r \<le> n \<and> c = j) = False" "(j < r \<and> r \<le> n \<and> j < c \<and> c \<le> n) = False"
      using False assms by simp_all
    show ?thesis
      unfolding e same no by (simp only: if_False)
  qed
qed

section \<open>What the loop over the columns returns\<close>

lemma LU_after_Suc:
  "LU_after (Suc m) a rows cols minMN bands j =
     LU_after m (LU_eliminate a rows cols minMN j (LU_chosen a rows bands j)) rows cols minMN bands (j + 1)"
  by simp

lemma LU_after_snoc:
  "LU_after (Suc m) a rows cols minMN bands j =
     LU_eliminate (LU_after m a rows cols minMN bands j) rows cols minMN (j + int m)
       (LU_chosen (LU_after m a rows cols minMN bands j) rows bands (j + int m))"
proof (induction m arbitrary: a j)
  case 0
  show ?case by simp
next
  case (Suc m)
  let ?e = "LU_eliminate a rows cols minMN j (LU_chosen a rows bands j)"
  have e: "j + 1 + int m = j + int (Suc m)" by simp
  have s: "LU_after (Suc m) a rows cols minMN bands j = LU_after m ?e rows cols minMN bands (j + 1)"
    by simp
  have "LU_after (Suc (Suc m)) a rows cols minMN bands j =
      LU_after (Suc m) ?e rows cols minMN bands (j + 1)"
    by simp
  also have "\<dots> = LU_eliminate (LU_after m ?e rows cols minMN bands (j + 1)) rows cols minMN
      (j + 1 + int m) (LU_chosen (LU_after m ?e rows cols minMN bands (j + 1)) rows bands (j + 1 + int m))"
    by (rule Suc.IH)
  finally show ?case
    by (simp only: s e)
qed

text \<open>
  The loop entered at column \<open>j\<close> makes \<open>k\<close> passes with a pivot that is not zero and
  returns 1 in the pass after them if there is one, 0 otherwise; the matrix returned is
  the matrix after these \<open>k\<close> passes, and the index holds the pivot row of every pass
  that was begun.
\<close>

lemma LU_cols_result:
  "LU_cols a indx rows cols minMN bands j = (rc, a', indx') \<Longrightarrow> 1 \<le> j \<Longrightarrow>
   minMN \<le> int (length indx) \<Longrightarrow> j \<le> minMN + 1 \<Longrightarrow>
   \<exists>k. j + int k \<le> minMN + 1 \<and> rc = (if j + int k \<le> minMN then 1 else 0) \<and>
     a' = LU_after k a rows cols minMN bands j \<and>
     (\<forall>m<k. \<not> zero_pivot_at a rows cols minMN bands j m) \<and>
     (j + int k \<le> minMN \<longrightarrow> zero_pivot_at a rows cols minMN bands j k) \<and>
     length indx' = length indx \<and>
     (\<forall>m. m \<le> k \<and> j + int m \<le> minMN \<longrightarrow>
        indx' ! nat (j + int m - 1) =
          LU_chosen (LU_after m a rows cols minMN bands j) rows bands (j + int m)) \<and>
     (\<forall>i. i < nat (j - 1) \<longrightarrow> indx' ! i = indx ! i)"
proof (induction a indx rows cols minMN bands j arbitrary: rc a' indx' rule: LU_cols.induct)
  case (1 a indx rows cols minMN bands j)
  let ?jp = "LU_chosen a rows bands j"
  let ?indx1 = "indx[nat (j - 1) := ?jp]"
  show ?case
  proof (cases "j \<le> minMN")
    case True
    note step = LU_cols_step [OF True, of a indx rows cols bands]
    have inside: "nat (j - 1) < length indx"
      using True "1.prems"(2,3) by linarith
    show ?thesis
    proof (cases "sub1 a ?jp j = 0")
      case zero: True
      have "LU_cols a indx rows cols minMN bands j = (1, a, ?indx1)"
        using step zero by simp
      then have "(rc, a', indx') = (1, a, ?indx1)"
        by (rule trans [OF "1.prems"(1) [symmetric]])
      then have r: "rc = 1" "a' = a" "indx' = ?indx1"
        by (simp_all only: prod.inject)
      have "j + int 0 \<le> minMN + 1 \<and> rc = (if j + int 0 \<le> minMN then 1 else 0) \<and>
          a' = LU_after 0 a rows cols minMN bands j \<and>
          (\<forall>m<0. \<not> zero_pivot_at a rows cols minMN bands j m) \<and>
          (j + int 0 \<le> minMN \<longrightarrow> zero_pivot_at a rows cols minMN bands j 0) \<and>
          length indx' = length indx \<and>
          (\<forall>m. m \<le> 0 \<and> j + int m \<le> minMN \<longrightarrow>
             indx' ! nat (j + int m - 1) =
               LU_chosen (LU_after m a rows cols minMN bands j) rows bands (j + int m)) \<and>
          (\<forall>i. i < nat (j - 1) \<longrightarrow> indx' ! i = indx ! i)"
        using True zero inside unfolding r by (simp add: zero_pivot_at_0)
      then show ?thesis by blast
    next
      case nz: False
      let ?a1 = "LU_eliminate a rows cols minMN j ?jp"
      obtain jp t where p: "LU_pivot a rows bands j (j + 1) j \<bar>sub1 a j j\<bar> = (jp, t)"
        by (cases "LU_pivot a rows bands j (j + 1) j \<bar>sub1 a j j\<bar>")
      then have c: "?jp = jp"
        by (simp add: LU_chosen_def)
      have nz': "sub1 a jp j \<noteq> 0" using nz c by simp
      have rec: "LU_cols ?a1 ?indx1 rows cols minMN bands (j + 1) = (rc, a', indx')"
        using "1.prems"(1) step nz by simp
      have j1: "1 \<le> j + 1" using "1.prems"(2) by simp
      have len: "minMN \<le> int (length ?indx1)" using "1.prems"(3) by simp
      have up: "j + 1 \<le> minMN + 1" using True by simp
      from "1.IH" [OF True p [symmetric] refl nz' rec [unfolded c] j1 len [unfolded c] up]
      obtain k where k: "j + 1 + int k \<le> minMN + 1"
        "rc = (if j + 1 + int k \<le> minMN then 1 else 0)"
        "a' = LU_after k ?a1 rows cols minMN bands (j + 1)"
        "\<forall>m<k. \<not> zero_pivot_at ?a1 rows cols minMN bands (j + 1) m"
        "j + 1 + int k \<le> minMN \<longrightarrow> zero_pivot_at ?a1 rows cols minMN bands (j + 1) k"
        "length indx' = length ?indx1"
        "\<forall>m. m \<le> k \<and> j + 1 + int m \<le> minMN \<longrightarrow>
           indx' ! nat (j + 1 + int m - 1) =
             LU_chosen (LU_after m ?a1 rows cols minMN bands (j + 1)) rows bands (j + 1 + int m)"
        "\<forall>i. i < nat (j + 1 - 1) \<longrightarrow> indx' ! i = ?indx1 ! i"
        unfolding c by blast
      have e: "\<And>m. j + 1 + int m = j + int (Suc m)" by simp
      have b1: "j + int (Suc k) \<le> minMN + 1" using k(1) by simp
      have b2: "rc = (if j + int (Suc k) \<le> minMN then 1 else 0)"
        using k(2) by (simp only: e)
      have b3: "a' = LU_after (Suc k) a rows cols minMN bands j"
        using k(3) by simp
      have b4: "\<forall>m<Suc k. \<not> zero_pivot_at a rows cols minMN bands j m"
      proof (intro allI impI)
        fix m assume m: "m < Suc k"
        show "\<not> zero_pivot_at a rows cols minMN bands j m"
        proof (cases m)
          case 0
          then show ?thesis using nz by (simp add: zero_pivot_at_0)
        next
          case (Suc m')
          then have "m' < k" using m by simp
          then show ?thesis
            unfolding Suc zero_pivot_at_Suc using k(4) by blast
        qed
      qed
      have b5: "j + int (Suc k) \<le> minMN \<longrightarrow> zero_pivot_at a rows cols minMN bands j (Suc k)"
        unfolding zero_pivot_at_Suc using k(5) by (simp only: e)
      have b6: "length indx' = length indx" using k(6) by simp
      have b7: "\<forall>m. m \<le> Suc k \<and> j + int m \<le> minMN \<longrightarrow>
          indx' ! nat (j + int m - 1) =
            LU_chosen (LU_after m a rows cols minMN bands j) rows bands (j + int m)"
      proof (intro allI impI)
        fix m assume m: "m \<le> Suc k \<and> j + int m \<le> minMN"
        show "indx' ! nat (j + int m - 1) =
            LU_chosen (LU_after m a rows cols minMN bands j) rows bands (j + int m)"
        proof (cases m)
          case 0
          have "nat (j - 1) < nat (j + 1 - 1)" using "1.prems"(2) by simp
          then have "indx' ! nat (j - 1) = ?indx1 ! nat (j - 1)"
            using k(8) by blast
          then show ?thesis
            unfolding 0 using inside by simp
        next
          case (Suc m')
          then have "m' \<le> k \<and> j + 1 + int m' \<le> minMN" using m by simp
          then have "indx' ! nat (j + 1 + int m' - 1) =
             LU_chosen (LU_after m' ?a1 rows cols minMN bands (j + 1)) rows bands (j + 1 + int m')"
            using k(7) by blast
          then show ?thesis
            unfolding Suc LU_after_Suc by (simp only: e)
        qed
      qed
      have b8: "\<forall>i. i < nat (j - 1) \<longrightarrow> indx' ! i = indx ! i"
      proof (intro allI impI)
        fix i assume i: "i < nat (j - 1)"
        then have "i < nat (j + 1 - 1)" by simp
        then have "indx' ! i = ?indx1 ! i" using k(8) by blast
        then show "indx' ! i = indx ! i" using i by simp
      qed
      from b1 b2 b3 b4 b5 b6 b7 b8 show ?thesis by blast
    qed
  next
    case False
    have r: "rc = 0" "a' = a" "indx' = indx"
      using "1.prems"(1) False by (subst (asm) LU_cols.simps, simp)+
    have "j + int 0 \<le> minMN + 1 \<and> rc = (if j + int 0 \<le> minMN then 1 else 0) \<and>
          a' = LU_after 0 a rows cols minMN bands j \<and>
          (\<forall>m<0. \<not> zero_pivot_at a rows cols minMN bands j m) \<and>
          (j + int 0 \<le> minMN \<longrightarrow> zero_pivot_at a rows cols minMN bands j 0) \<and>
          length indx' = length indx \<and>
          (\<forall>m. m \<le> 0 \<and> j + int m \<le> minMN \<longrightarrow>
             indx' ! nat (j + int m - 1) =
               LU_chosen (LU_after m a rows cols minMN bands j) rows bands (j + int m)) \<and>
          (\<forall>i. i < nat (j - 1) \<longrightarrow> indx' ! i = indx ! i)"
      using False "1.prems"(4) unfolding r by simp
    then show ?thesis by blast
  qed
qed

lemma LU_factor_banded_result:
  assumes "num_rows a = n" and "num_cols a = n" and "1 \<le> n"
  shows "\<exists>k idx. LU_factor_banded a indx bands =
       (if int k < n then 1 else 0, LU_after k a n n n bands 1, idx) \<and>
     int k \<le> n \<and>
     (\<forall>m<k. \<not> zero_pivot_at a n n n bands 1 m) \<and>
     (int k < n \<longrightarrow> zero_pivot_at a n n n bands 1 k) \<and>
     int (length idx) = n \<and>
     (\<forall>m. m \<le> k \<and> int m < n \<longrightarrow>
        idx ! m = LU_chosen (LU_after m a n n n bands 1) n bands (1 + int m))"
proof -
  let ?indx = "if int (length indx) \<noteq> n then replicate (nat n) 0 else indx"
  have e: "LU_factor_banded a indx bands = LU_cols a ?indx n n n bands 1"
    using assms by (simp add: LU_factor_banded_def Let_def)
  obtain rc a' indx' where r: "LU_cols a ?indx n n n bands 1 = (rc, a', indx')"
    by (cases "LU_cols a ?indx n n n bands 1")
  have len: "int (length ?indx) = n" using assms(3) by simp
  then have le: "n \<le> int (length ?indx)" by simp
  have one: "(1::int) \<le> 1" "1 \<le> n + 1" using assms(3) by simp_all
  from LU_cols_result [OF r one(1) le one(2)] obtain k where
    k: "1 + int k \<le> n + 1" "rc = (if 1 + int k \<le> n then 1 else 0)"
      "a' = LU_after k a n n n bands 1"
      "\<forall>m<k. \<not> zero_pivot_at a n n n bands 1 m"
      "1 + int k \<le> n \<longrightarrow> zero_pivot_at a n n n bands 1 k"
      "length indx' = length ?indx"
      "\<forall>m. m \<le> k \<and> 1 + int m \<le> n \<longrightarrow>
        indx' ! nat (1 + int m - 1) = LU_chosen (LU_after m a n n n bands 1) n bands (1 + int m)"
    by blast
  have "(1 + int k \<le> n) = (int k < n)" by linarith
  then have rc: "rc = (if int k < n then 1 else 0)"
    using k(2) by (simp only:)
  have i: "\<forall>m. m \<le> k \<and> int m < n \<longrightarrow>
        idx' ! m = LU_chosen (LU_after m a n n n bands 1) n bands (1 + int m)"
    if "idx' = indx'" for idx'
    using k(7) that by (simp add: add.commute)
  have "LU_factor_banded a indx bands = (if int k < n then 1 else 0, LU_after k a n n n bands 1, indx')"
    unfolding e r rc k(3) ..
  moreover have "int k \<le> n" using k(1) by simp
  moreover have "int k < n \<longrightarrow> zero_pivot_at a n n n bands 1 k" using k(5) by simp
  moreover have "int (length indx') = n" using k(6) len by simp
  ultimately show ?thesis
    using k(4) i [OF refl] by blast
qed

lemma matrix_band_entries:
  "num_rows matrix_band = 3" "num_cols matrix_band = 3"
  "sub1 matrix_band 1 1 = 1" "sub1 matrix_band 1 2 = 2" "sub1 matrix_band 1 3 = 0"
  "sub1 matrix_band 2 1 = 2" "sub1 matrix_band 2 2 = 1" "sub1 matrix_band 2 3 = 1"
  "sub1 matrix_band 3 1 = 5" "sub1 matrix_band 3 2 = 1" "sub1 matrix_band 3 3 = 4"
  by (simp_all add: matrix_band_def sub1_def set0_def newsize_def)

lemma LU_chosen_band: "LU_chosen matrix_band 3 1 1 = 2"
  by (simp add: LU_chosen_def LU_pivot.simps matrix_band_entries)

lemma LU_factor_banded_band:
  "(case LU_factor_banded matrix_band [] 1 of (rc, lu, idx) \<Rightarrow>
      rc = 0 \<and> idx = [2, 2, 3] \<and>
      sub1 lu 1 1 = 2 \<and> sub1 lu 1 2 = 1 \<and> sub1 lu 1 3 = 1 \<and>
      sub1 lu 2 1 = 1 / 2 \<and> sub1 lu 2 2 = 3 / 2 \<and> sub1 lu 2 3 = - 1 / 2 \<and>
      sub1 lu 3 1 = 5 / 2 \<and> sub1 lu 3 2 = - 1 \<and> sub1 lu 3 3 = 1)"
  by (simp add: LU_factor_banded_def Let_def LU_cols.simps LU_pivot.simps LU_eliminate_def
      LU_swap.simps LU_scale.simps LU_update_ii.simps LU_update_jj.simps sub1_set1
      matrix_band_entries eval_nat_numeral)

lemma LU_eliminate_rows:
  assumes "1 \<le> j" and "j \<le> jp" and "jp \<le> n"
  shows "(\<forall>c. 1 \<le> c \<and> c \<le> n \<longrightarrow> sub1 (LU_eliminate b n n n j jp) j c = sub1 b jp c) \<and>
     (\<forall>c. 1 \<le> c \<and> c < j \<longrightarrow> sub1 (LU_eliminate b n n n j jp) jp c = sub1 b j c) \<and>
     (j < jp \<longrightarrow>
        sub1 (LU_eliminate b n n n j jp) jp j = sub1 b j j / sub1 b jp j \<and>
        (\<forall>c. j < c \<and> c \<le> n \<longrightarrow>
           sub1 (LU_eliminate b n n n j jp) jp c =
             sub1 b j c - sub1 b j j / sub1 b jp j * sub1 b jp c)) \<and>
     (\<forall>r c. r < j \<longrightarrow> sub1 (LU_eliminate b n n n j jp) r c = sub1 b r c)"
proof -
  have jn: "j \<le> n" using assms by simp
  note ch = LU_eliminate_char [OF jn, of b jp]
  have p1: "\<forall>c. 1 \<le> c \<and> c \<le> n \<longrightarrow> sub1 (LU_eliminate b n n n j jp) j c = sub1 b jp c"
    by (simp add: ch LU_swap_char)
  have p2: "\<forall>c. 1 \<le> c \<and> c < j \<longrightarrow> sub1 (LU_eliminate b n n n j jp) jp c = sub1 b j c"
    using assms by (simp add: ch LU_swap_char)
  have p3: "j < jp \<longrightarrow>
        sub1 (LU_eliminate b n n n j jp) jp j = sub1 b j j / sub1 b jp j \<and>
        (\<forall>c. j < c \<and> c \<le> n \<longrightarrow>
           sub1 (LU_eliminate b n n n j jp) jp c =
             sub1 b j c - sub1 b j j / sub1 b jp j * sub1 b jp c)"
    using assms by (simp add: ch LU_swap_char)
  have p4: "\<forall>r c. r < j \<longrightarrow> sub1 (LU_eliminate b n n n j jp) r c = sub1 b r c"
    using assms by (simp add: ch LU_swap_char)
  from p1 p2 p3 p4 show ?thesis by blast
qed

text \<open>
  C3. For a square matrix of \<open>n\<close> rows, a bandwidth \<open>bands\<close> and a column \<open>j\<close>, the pivot
  row \<open>jp\<close> that \<open>LU_factor_banded\<close> chooses in a pass lies in the rows
  \<open>j..min (j + bands, n)\<close> and holds an entry of the largest magnitude among the entries
  of these rows in column \<open>j\<close>. When that entry is zero the loop returns 1 at once,
  with the matrix as it is; otherwise the pass exchanges the rows \<open>j\<close> and \<open>jp\<close> in every
  column \<open>1..n\<close> and eliminates: afterwards row \<open>j\<close> holds what row \<open>jp\<close> held, row \<open>jp\<close>
  holds what row \<open>j\<close> held in the columns before \<open>j\<close> and what the elimination makes of
  it from column \<open>j\<close> on, the rows above \<open>j\<close> are as they were, and the loop goes on
  with column \<open>j + 1\<close>. The function returns the matrix after the \<open>k\<close> passes that met a
  pivot other than zero, each with the pivot row chosen for it, the index of the pivot
  rows of all passes begun, and the code 1 if a pass after these met a zero pivot, 0 if
  all \<open>n\<close> passes were made.
\<close>

theorem LU_factor_banded_pivoting:
  assumes "num_rows a = n" and "num_cols a = n" and "1 \<le> j" and "j \<le> n" and "0 \<le> bands"
  shows "j \<le> LU_chosen b n bands j \<and> LU_chosen b n bands j \<le> min (j + bands) n \<and>
     (\<forall>k. j \<le> k \<and> k \<le> min (j + bands) n \<longrightarrow>
        \<bar>sub1 b k j\<bar> \<le> \<bar>sub1 b (LU_chosen b n bands j) j\<bar>) \<and>
     (sub1 b (LU_chosen b n bands j) j = 0 \<longrightarrow>
        LU_cols b indx n n n bands j = (1, b, indx[nat (j - 1) := LU_chosen b n bands j])) \<and>
     (sub1 b (LU_chosen b n bands j) j \<noteq> 0 \<longrightarrow>
        LU_cols b indx n n n bands j =
          LU_cols (LU_eliminate b n n n j (LU_chosen b n bands j))
            (indx[nat (j - 1) := LU_chosen b n bands j]) n n n bands (j + 1)) \<and>
     (\<forall>c. 1 \<le> c \<and> c \<le> n \<longrightarrow>
        sub1 (LU_eliminate b n n n j (LU_chosen b n bands j)) j c =
          sub1 b (LU_chosen b n bands j) c) \<and>
     (\<forall>c. 1 \<le> c \<and> c < j \<longrightarrow>
        sub1 (LU_eliminate b n n n j (LU_chosen b n bands j)) (LU_chosen b n bands j) c =
          sub1 b j c) \<and>
     (j < LU_chosen b n bands j \<longrightarrow>
        sub1 (LU_eliminate b n n n j (LU_chosen b n bands j)) (LU_chosen b n bands j) j =
          sub1 b j j / sub1 b (LU_chosen b n bands j) j \<and>
        (\<forall>c. j < c \<and> c \<le> n \<longrightarrow>
           sub1 (LU_eliminate b n n n j (LU_chosen b n bands j)) (LU_chosen b n bands j) c =
             sub1 b j c -
               sub1 b j j / sub1 b (LU_chosen b n bands j) j * sub1 b (LU_chosen b n bands j) c)) \<and>
     (\<forall>r c. r < j \<longrightarrow>
        sub1 (LU_eliminate b n n n j (LU_chosen b n bands j)) r c = sub1 b r c) \<and>
     (\<forall>m. LU_after (Suc m) a n n n bands 1 =
        LU_eliminate (LU_after m a n n n bands 1) n n n (1 + int m)
          (LU_chosen (LU_after m a n n n bands 1) n bands (1 + int m))) \<and>
     (\<exists>k idx. LU_factor_banded a indx bands =
          (if int k < n then 1 else 0, LU_after k a n n n bands 1, idx) \<and>
        int k \<le> n \<and>
        (\<forall>m<k. \<not> zero_pivot_at a n n n bands 1 m) \<and>
        (int k < n \<longrightarrow> zero_pivot_at a n n n bands 1 k) \<and>
        int (length idx) = n \<and>
        (\<forall>m. m \<le> k \<and> int m < n \<longrightarrow>
           idx ! m = LU_chosen (LU_after m a n n n bands 1) n bands (1 + int m))) \<and>
     fst (LU_factor_banded a indx bands) =
       (if \<exists>m. 1 + int m \<le> n \<and> zero_pivot_at a n n n bands 1 m then 1 else 0)"
proof -
  let ?jp = "LU_chosen b n bands j"
  note mx = LU_chosen_max [OF assms(4,5), of b]
  note step = LU_cols_step [OF assms(4), of b indx n n bands]
  have n1: "1 \<le> n" using assms(3,4) by simp
  have jp: "j \<le> ?jp" "?jp \<le> n" using mx by simp_all
  note rows = LU_eliminate_rows [OF assms(3) jp, of b]
  have after: "\<forall>m. LU_after (Suc m) a n n n bands 1 =
        LU_eliminate (LU_after m a n n n bands 1) n n n (1 + int m)
          (LU_chosen (LU_after m a n n n bands 1) n bands (1 + int m))"
    by (intro allI) (rule LU_after_snoc)
  note res = LU_factor_banded_result [OF assms(1,2) n1, of indx bands]
  have code: "fst (LU_factor_banded a indx bands) =
       (if \<exists>m. 1 + int m \<le> n \<and> zero_pivot_at a n n n bands 1 m then 1 else 0)"
    using assms(1,2) n1 by (rule LU_factor_banded_code)
  have s1: "sub1 b ?jp j = 0 \<longrightarrow>
        LU_cols b indx n n n bands j = (1, b, indx[nat (j - 1) := ?jp])"
    using step by simp
  have s2: "sub1 b ?jp j \<noteq> 0 \<longrightarrow>
        LU_cols b indx n n n bands j =
          LU_cols (LU_eliminate b n n n j ?jp) (indx[nat (j - 1) := ?jp]) n n n bands (j + 1)"
    using step by simp
  note m1 = mx [THEN conjunct1] and m2 = mx [THEN conjunct2, THEN conjunct1]
    and m3 = mx [THEN conjunct2, THEN conjunct2]
  note r1 = rows [THEN conjunct1] and r2 = rows [THEN conjunct2, THEN conjunct1]
    and r3 = rows [THEN conjunct2, THEN conjunct2, THEN conjunct1]
    and r4 = rows [THEN conjunct2, THEN conjunct2, THEN conjunct2]
  show ?thesis
    by (intro conjI; (rule m1 | rule m2 | rule m3 | rule s1 | rule s2 | rule r1 | rule r2 |
        rule r3 | rule r4 | rule after | rule res | rule code))
qed

theorem LU_factor_banded_pivoting_witness:
  "num_rows matrix_band = 3 \<and> num_cols matrix_band = 3 \<and> (1::int) \<le> 1 \<and> (1::int) \<le> 3 \<and>
   (0::int) \<le> 1 \<and>
   LU_chosen matrix_band 3 1 1 = 2 \<and> \<bar>sub1 matrix_band 3 1\<bar> > \<bar>sub1 matrix_band 2 1\<bar> \<and>
   LU_chosen matrix_band 3 1 1 \<le> min (1 + 1) 3 \<and>
   \<bar>sub1 matrix_band 1 1\<bar> \<le> \<bar>sub1 matrix_band (LU_chosen matrix_band 3 1 1) 1\<bar> \<and>
   sub1 (LU_eliminate matrix_band 3 3 3 1 2) 1 1 = 2 \<and>
   sub1 (LU_eliminate matrix_band 3 3 3 1 2) 1 2 = 1 \<and>
   sub1 (LU_eliminate matrix_band 3 3 3 1 2) 1 3 = 1 \<and>
   sub1 (LU_eliminate matrix_band 3 3 3 1 2) 2 1 = 1 / 2 \<and>
   sub1 (LU_eliminate matrix_band 3 3 3 1 2) 2 2 = 3 / 2 \<and>
   sub1 (LU_eliminate matrix_band 3 3 3 1 2) 2 3 = - 1 / 2 \<and>
   (\<exists>lu. LU_factor_banded matrix_band [] 1 = (0, lu, [2, 2, 3]) \<and>
      lu = LU_after 3 matrix_band 3 3 3 1 1 \<and>
      sub1 lu 1 1 = 2 \<and> sub1 lu 1 2 = 1 \<and> sub1 lu 1 3 = 1 \<and>
      sub1 lu 2 1 = 1 / 2 \<and> sub1 lu 2 2 = 3 / 2 \<and> sub1 lu 2 3 = - 1 / 2 \<and>
      sub1 lu 3 1 = 5 / 2 \<and> sub1 lu 3 2 = - 1 \<and> sub1 lu 3 3 = 1) \<and>
   fst (LU_factor_banded matrix_1224 [] 3) = 1"
proof -
  have h: "num_rows matrix_band = 3" "num_cols matrix_band = 3" "(1::int) \<le> 1" "(1::int) \<le> 3"
    "(0::int) \<le> 1"
    by (simp_all add: matrix_band_entries)
  note t = LU_factor_banded_pivoting [OF h, of matrix_band "[]"]
  note c = LU_chosen_band
  note t2 = t [THEN conjunct2]
  note t3 = t2 [THEN conjunct2]
  note t4 = t3 [THEN conjunct2]
  note t5 = t4 [THEN conjunct2]
  note t6 = t5 [THEN conjunct2]
  note t7 = t6 [THEN conjunct2]
  note t8 = t7 [THEN conjunct2]
  note t9 = t8 [THEN conjunct2]
  note t10 = t9 [THEN conjunct2]
  note t11 = t10 [THEN conjunct2]
  have big: "\<bar>sub1 matrix_band 3 1\<bar> > \<bar>sub1 matrix_band 2 1\<bar>"
    by (simp add: matrix_band_entries)
  have a1: "LU_chosen matrix_band 3 1 1 \<le> min (1 + 1) 3"
    by (rule t2 [THEN conjunct1])
  have "1 \<le> (1::int) \<and> (1::int) \<le> min (1 + 1) 3" by simp
  then have a2: "\<bar>sub1 matrix_band 1 1\<bar> \<le> \<bar>sub1 matrix_band (LU_chosen matrix_band 3 1 1) 1\<bar>"
    by (rule t3 [THEN conjunct1, rule_format])
  note r1 = t6 [THEN conjunct1, unfolded c, rule_format]
  have lt: "(1::int) < 2" by simp
  note r2 = t8 [THEN conjunct1, unfolded c, rule_format, OF lt]
  have e1: "sub1 (LU_eliminate matrix_band 3 3 3 1 2) 1 1 = 2"
    "sub1 (LU_eliminate matrix_band 3 3 3 1 2) 1 2 = 1"
    "sub1 (LU_eliminate matrix_band 3 3 3 1 2) 1 3 = 1"
    using r1 [of 1] r1 [of 2] r1 [of 3] by (simp_all add: matrix_band_entries)
  have e2: "sub1 (LU_eliminate matrix_band 3 3 3 1 2) 2 1 = 1 / 2"
    "sub1 (LU_eliminate matrix_band 3 3 3 1 2) 2 2 = 3 / 2"
    "sub1 (LU_eliminate matrix_band 3 3 3 1 2) 2 3 = - 1 / 2"
    using r2 [THEN conjunct1] r2 [THEN conjunct2, rule_format, of 2]
      r2 [THEN conjunct2, rule_format, of 3]
    by (simp_all add: matrix_band_entries)
  obtain rc lu idx where f: "LU_factor_banded matrix_band [] 1 = (rc, lu, idx)"
    by (cases "LU_factor_banded matrix_band [] 1")
  have v: "rc = 0" "idx = [2, 2, 3]"
    "sub1 lu 1 1 = 2 \<and> sub1 lu 1 2 = 1 \<and> sub1 lu 1 3 = 1 \<and>
      sub1 lu 2 1 = 1 / 2 \<and> sub1 lu 2 2 = 3 / 2 \<and> sub1 lu 2 3 = - 1 / 2 \<and>
      sub1 lu 3 1 = 5 / 2 \<and> sub1 lu 3 2 = - 1 \<and> sub1 lu 3 3 = 1"
    using LU_factor_banded_band unfolding f by simp_all
  from t11 [THEN conjunct1] obtain k idx' where
    k: "LU_factor_banded matrix_band [] 1 =
          (if int k < 3 then 1 else 0, LU_after k matrix_band 3 3 3 1 1, idx')" and k3: "int k \<le> 3"
    by blast
  have kk: "(rc, lu, idx) = (if int k < 3 then 1 else 0, LU_after k matrix_band 3 3 3 1 1, idx')"
    using k unfolding f .
  have nk: "\<not> int k < 3"
  proof
    assume "int k < 3"
    then have "rc = 1" using kk by (simp only: if_True prod.inject)
    then show False using v(1) by simp
  qed
  then have "k = 3" using k3 by simp
  then have lu: "lu = LU_after 3 matrix_band 3 3 3 1 1"
    using kk by (simp only: prod.inject)
  have "LU_factor_banded matrix_band [] 1 = (0, lu, [2, 2, 3])"
    unfolding f v(1,2) ..
  then have "\<exists>lu. LU_factor_banded matrix_band [] 1 = (0, lu, [2, 2, 3]) \<and>
      lu = LU_after 3 matrix_band 3 3 3 1 1 \<and>
      sub1 lu 1 1 = 2 \<and> sub1 lu 1 2 = 1 \<and> sub1 lu 1 3 = 1 \<and>
      sub1 lu 2 1 = 1 / 2 \<and> sub1 lu 2 2 = 3 / 2 \<and> sub1 lu 2 3 = - 1 / 2 \<and>
      sub1 lu 3 1 = 5 / 2 \<and> sub1 lu 3 2 = - 1 \<and> sub1 lu 3 3 = 1"
    using v(3) lu by blast
  then show ?thesis
    using h c big a1 a2 e1 e2 LU_factor_banded_1224 by blast
qed

section \<open>The support of the basis functions\<close>







section \<open>The accumulation of the data-fit matrix\<close>














end
